theory Spec2Isabelle
  imports Complex_Main "HOL-Library.Multiset" "HOL-Library.Log_Nat"
begin

section \<open>Python text primitives\<close>

text \<open>
  Python text is modelled as \<^typ>\<open>string\<close>; a \<^typ>\<open>char\<close> stands for a code point
  below 256.  The functions of this section are the library operations the scripts call
  (\<^verbatim>\<open>str.strip\<close>, \<^verbatim>\<open>str.startswith\<close>, \<^verbatim>\<open>str.split\<close>, \<^verbatim>\<open>str.splitlines\<close>,
  \<^verbatim>\<open>str.lower\<close>, \<^verbatim>\<open>in\<close>, \<^verbatim>\<open>int\<close>), restricted to that range of code points.
\<close>

datatype py_error = RuntimeError string | ValueError | IndexError

definition TAB :: char where
  "TAB = char_of (9::nat)"

definition py_isspace :: "char \<Rightarrow> bool" where
  "py_isspace c = (of_char c \<in> {9, 10, 11, 12, 13, 28, 29, 30, 31, 32, 133, 160 :: nat})"

definition py_strip :: "string \<Rightarrow> string" where
  "py_strip s = rev (dropWhile py_isspace (rev (dropWhile py_isspace s)))"

definition startswith :: "string \<Rightarrow> string \<Rightarrow> bool" where
  "startswith s p = (take (length p) s = p)"

text \<open>\<^verbatim>\<open>s.split(sep)\<close> for a one-character separator: one field more than there are
  separators, empty fields kept.\<close>

fun py_split :: "char \<Rightarrow> string \<Rightarrow> string list" where
  "py_split sep [] = [[]]"
| "py_split sep (c # cs) =
     (if c = sep then [] # py_split sep cs
      else (case py_split sep cs of
              [] \<Rightarrow> [[c]]
            | w # ws \<Rightarrow> (c # w) # ws))"

subsection \<open>The conversion \<^verbatim>\<open>int(text)\<close>\<close>

text \<open>
  \<^verbatim>\<open>int\<close> skips white space on both sides (the C locale's six characters, and the
  two further spaces below 256 once the text is not pure ASCII), reads an optional sign
  and then decimal digits, where single underscores may stand between digits.  CPython
  from 3.11 on also refuses, with the same \<^verbatim>\<open>ValueError\<close>, a literal of more than
  \<^verbatim>\<open>sys.get_int_max_str_digits()\<close> digits (underscores not counted, leading zeros
  counted); that setting is the parameter \<open>maxd\<close>, and \<open>0\<close> switches the limit off, as
  in the interpreter, which accepts \<open>0\<close> and values from 640 on.
\<close>

definition int_space :: "char \<Rightarrow> bool" where
  "int_space c = (of_char c \<in> {9, 10, 11, 12, 13, 32, 133, 160 :: nat})"

definition is_digit :: "char \<Rightarrow> bool" where
  "is_digit c = (48 \<le> (of_char c :: nat) \<and> (of_char c :: nat) \<le> 57)"

definition digit_val :: "char \<Rightarrow> int" where
  "digit_val c = int (of_char c) - 48"

text \<open>The digits of a literal, most significant first; \<open>None\<close> where an underscore is not
  between two digits or another character occurs.\<close>

fun digits_of :: "string \<Rightarrow> int list option" where
  "digits_of [] = None"
| "digits_of [c] = (if is_digit c then Some [digit_val c] else None)"
| "digits_of (c # d # cs) =
     (if is_digit c then
        (if d = CHR ''_'' then map_option (\<lambda>ds. digit_val c # ds) (digits_of cs)
         else map_option (\<lambda>ds. digit_val c # ds) (digits_of (d # cs)))
      else None)"

definition int_of_digits :: "int list \<Rightarrow> int" where
  "int_of_digits ds = foldl (\<lambda>n d. 10 * n + d) 0 ds"

definition py_int :: "nat \<Rightarrow> string \<Rightarrow> py_error + int" where
  "py_int maxd s =
     (let t = rev (dropWhile int_space (rev (dropWhile int_space s)));
          neg = (take 1 t = ''-'');
          body = (if take 1 t = ''-'' \<or> take 1 t = ''+'' then drop 1 t else t)
      in case digits_of body of
           None \<Rightarrow> Inl ValueError
         | Some ds \<Rightarrow>
             if 0 < maxd \<and> maxd < length ds then Inl ValueError
             else Inr (if neg then - int_of_digits ds else int_of_digits ds))"

section \<open>Churn measurement: \<^verbatim>\<open>code_churn_measurement.py\<close>\<close>

subsection \<open>\<^verbatim>\<open>parse_git_numstat\<close>\<close>

type_synonym churn_record = "int \<times> int \<times> string"

text \<open>
  The body of the \<^verbatim>\<open>for\<close> loop for one line: \<open>Inr None\<close> is a \<^verbatim>\<open>continue\<close>,
  \<open>Inr (Some r)\<close> an \<^verbatim>\<open>append\<close>; the \<^verbatim>\<open>except ValueError\<close> clause catches that
  error only, any other one leaves the function.
\<close>

definition parse_line :: "nat \<Rightarrow> string \<Rightarrow> py_error + churn_record option" where
  "parse_line maxd line0 =
     (let line = py_strip line0 in
      if line = [] \<or> startswith line ''commit'' then Inr None
      else let parts = py_split TAB line in
        if length parts \<noteq> 3 then Inr None
        else let added = parts ! 0; removed = parts ! 1; file_path = parts ! 2 in
          (case py_int maxd added of
             Inl ValueError \<Rightarrow> Inr None
           | Inl e \<Rightarrow> Inl e
           | Inr a \<Rightarrow>
               (case py_int maxd removed of
                  Inl ValueError \<Rightarrow> Inr None
                | Inl e \<Rightarrow> Inl e
                | Inr r \<Rightarrow> Inr (Some (a, r, file_path)))))"

fun numstat_loop :: "nat \<Rightarrow> string list \<Rightarrow> churn_record list \<Rightarrow> py_error + churn_record list" where
  "numstat_loop maxd [] file_churn = Inr file_churn"
| "numstat_loop maxd (line # lines) file_churn =
     (case parse_line maxd line of
        Inl e \<Rightarrow> Inl e
      | Inr None \<Rightarrow> numstat_loop maxd lines file_churn
      | Inr (Some r) \<Rightarrow> numstat_loop maxd lines (file_churn @ [r]))"

definition parse_git_numstat :: "nat \<Rightarrow> string list \<Rightarrow> py_error + churn_record list" where
  "parse_git_numstat maxd lines = numstat_loop maxd lines []"

subsection \<open>\<^verbatim>\<open>pathlib\<close>: the parent directory of a POSIX path\<close>

text \<open>
  \<^verbatim>\<open>Path(text)\<close> on a POSIX system: the root is \<^verbatim>\<open>//\<close> for exactly two leading
  slashes, \<^verbatim>\<open>/\<close> for any other number of them; empty components and \<^verbatim>\<open>.\<close>
  components are dropped.  \<^verbatim>\<open>parent\<close> drops the last component when there is one;
  \<^verbatim>\<open>as_posix\<close> prints \<^verbatim>\<open>.\<close> for the path with neither root nor components.
\<close>

record pure_path =
  p_root :: string
  p_parts :: "string list"

fun join_slash :: "string list \<Rightarrow> string" where
  "join_slash [] = []"
| "join_slash [x] = x"
| "join_slash (x # y # ys) = x @ ''/'' @ join_slash (y # ys)"

definition Path :: "string \<Rightarrow> pure_path" where
  "Path s =
     \<lparr>p_root = (if take 1 s = ''/''
                then (if take 2 s = ''//'' \<and> take 3 s \<noteq> ''///'' then ''//'' else ''/'')
                else ''''),
      p_parts = filter (\<lambda>x. x \<noteq> [] \<and> x \<noteq> ''.'') (py_split (CHR ''/'') s)\<rparr>"

definition parent :: "pure_path \<Rightarrow> pure_path" where
  "parent p = (if p_parts p = [] then p else p\<lparr>p_parts := butlast (p_parts p)\<rparr>)"

definition as_posix :: "pure_path \<Rightarrow> string" where
  "as_posix p =
     (if p_root p = [] \<and> p_parts p = [] then ''.'' else p_root p @ join_slash (p_parts p))"

definition module_of :: "string \<Rightarrow> string" where
  "module_of path =
     (if parent (Path path) \<noteq> Path ''.'' then as_posix (parent (Path path)) else ''.'')"

subsection \<open>\<^verbatim>\<open>aggregate_churn\<close>\<close>

text \<open>
  A \<^verbatim>\<open>defaultdict\<close> is an association list in insertion order.  Reading a missing key
  inserts the default entry \<^verbatim>\<open>{'added': 0, 'removed': 0}\<close> at the end; the entry's
  \<^verbatim>\<open>total_churn\<close> field exists only after the final pass.
\<close>

record tally =
  added :: int
  removed :: int

record metric = tally +
  total_churn :: int

definition default_tally :: tally where
  "default_tally = \<lparr>added = 0, removed = 0\<rparr>"

fun dd_update :: "string \<Rightarrow> (tally \<Rightarrow> tally) \<Rightarrow> (string \<times> tally) list \<Rightarrow> (string \<times> tally) list" where
  "dd_update k f [] = [(k, f default_tally)]"
| "dd_update k f ((k', v) # d) =
     (if k' = k then (k', f v) # d else (k', v) # dd_update k f d)"

fun churn_loop ::
  "churn_record list \<Rightarrow> (string \<times> tally) list \<times> (string \<times> tally) list
     \<Rightarrow> (string \<times> tally) list \<times> (string \<times> tally) list" where
  "churn_loop [] st = st"
| "churn_loop ((a, r, path) # rest) (file_metrics, module_metrics) =
     (let fm1 = dd_update path (\<lambda>t. t\<lparr>added := added t + a\<rparr>) file_metrics;
          fm2 = dd_update path (\<lambda>t. t\<lparr>removed := removed t + r\<rparr>) fm1;
          module = module_of path;
          mm1 = dd_update module (\<lambda>t. t\<lparr>added := added t + a\<rparr>) module_metrics;
          mm2 = dd_update module (\<lambda>t. t\<lparr>removed := removed t + r\<rparr>) mm1
      in churn_loop rest (fm2, mm2))"

definition with_total :: "tally \<Rightarrow> metric" where
  "with_total t = \<lparr>added = added t, removed = removed t, total_churn = added t + removed t\<rparr>"

definition aggregate_churn ::
  "churn_record list \<Rightarrow> (string \<times> metric) list \<times> (string \<times> metric) list" where
  "aggregate_churn file_churn =
     (let (file_metrics, module_metrics) = churn_loop file_churn ([], [])
      in (map (\<lambda>(k, t). (k, with_total t)) file_metrics,
          map (\<lambda>(k, t). (k, with_total t)) module_metrics))"

subsection \<open>Sums over a dictionary and over a list of records\<close>

text \<open>\<open>sum_where P g d\<close> adds the field \<open>g\<close> of the entries of \<open>d\<close> whose key satisfies
  \<open>P\<close>; \<open>churn_where P g recs\<close> adds \<open>g added removed\<close> over the records whose path
  satisfies \<open>P\<close>.\<close>

definition sum_where :: "(string \<Rightarrow> bool) \<Rightarrow> ('r \<Rightarrow> int) \<Rightarrow> (string \<times> 'r) list \<Rightarrow> int" where
  "sum_where P g d = sum_list (map (\<lambda>(k, v). g v) (filter (\<lambda>(k, v). P k) d))"

definition churn_where :: "(string \<Rightarrow> bool) \<Rightarrow> (int \<Rightarrow> int \<Rightarrow> int) \<Rightarrow> churn_record list \<Rightarrow> int" where
  "churn_where P g recs = sum_list (map (\<lambda>(a, r, p). g a r) (filter (\<lambda>(a, r, p). P p) recs))"

subsection \<open>Reference notions for the aggregation claims\<close>

text \<open>A path component as Git prints it: not empty, not \<^verbatim>\<open>.\<close>, without a slash.\<close>

definition wf_component :: "string \<Rightarrow> bool" where
  "wf_component c = (c \<noteq> [] \<and> c \<noteq> ''.'' \<and> CHR ''/'' \<notin> set c)"

text \<open>The running sum per key, written as a function of the record list: the entry of
  key \<open>k\<close> exists when some record has that key and holds the sums over those records.\<close>

definition tally_by :: "(string \<Rightarrow> string) \<Rightarrow> churn_record list \<Rightarrow> string \<Rightarrow> metric option" where
  "tally_by key recs k =
     (if k \<in> (\<lambda>(a, r, p). key p) ` set recs
      then Some \<lparr>added = churn_where (\<lambda>p. key p = k) (\<lambda>a r. a) recs,
                 removed = churn_where (\<lambda>p. key p = k) (\<lambda>a r. r) recs,
                 total_churn = churn_where (\<lambda>p. key p = k) (\<lambda>a r. a + r) recs\<rparr>
      else None)"

text \<open>Merging two results by adding corresponding fields.\<close>

definition merge_metric :: "metric \<Rightarrow> metric \<Rightarrow> metric" where
  "merge_metric x y =
     \<lparr>added = added x + added y, removed = removed x + removed y,
      total_churn = total_churn x + total_churn y\<rparr>"

definition merge_metrics :: "(string \<rightharpoonup> metric) \<Rightarrow> (string \<rightharpoonup> metric) \<Rightarrow> (string \<rightharpoonup> metric)" where
  "merge_metrics m1 m2 =
     (\<lambda>k. case m1 k of
            None \<Rightarrow> m2 k
          | Some x \<Rightarrow> (case m2 k of None \<Rightarrow> Some x | Some y \<Rightarrow> Some (merge_metric x y)))"

subsection \<open>Reference notions for the parser claim\<close>

text \<open>
  The acceptance condition in the words of the specification: the stripped line is not
  empty, does not start with the commit marker, has exactly two tab characters (so exactly
  three tab-separated fields), and its first two fields convert with \<^verbatim>\<open>int\<close>.  The
  fields are read off the text directly: up to the first tab, between the first and the
  second tab, after the second tab.
\<close>

definition parses_as_int :: "nat \<Rightarrow> string \<Rightarrow> bool" where
  "parses_as_int maxd s = (case py_int maxd s of Inl _ \<Rightarrow> False | Inr _ \<Rightarrow> True)"

definition int_value :: "nat \<Rightarrow> string \<Rightarrow> int" where
  "int_value maxd s = (case py_int maxd s of Inl _ \<Rightarrow> 0 | Inr n \<Rightarrow> n)"

definition field1 :: "string \<Rightarrow> string" where
  "field1 s = takeWhile (\<lambda>c. c \<noteq> TAB) s"

definition after_tab :: "string \<Rightarrow> string" where
  "after_tab s = tl (dropWhile (\<lambda>c. c \<noteq> TAB) s)"

definition accepted :: "nat \<Rightarrow> string \<Rightarrow> bool" where
  "accepted maxd line0 =
     (let s = py_strip line0 in
      s \<noteq> [] \<and> \<not> startswith s ''commit'' \<and> length (filter (\<lambda>c. c = TAB) s) = 2 \<and>
      parses_as_int maxd (field1 s) \<and> parses_as_int maxd (field1 (after_tab s)))"

definition record_of :: "nat \<Rightarrow> string \<Rightarrow> churn_record" where
  "record_of maxd line0 =
     (let s = py_strip line0 in
      (int_value maxd (field1 s), int_value maxd (field1 (after_tab s)), after_tab (after_tab s)))"

subsection \<open>\<^verbatim>\<open>run_git_log\<close> and the run of the script\<close>

text \<open>
  \<^verbatim>\<open>str.splitlines\<close>: a line ends at \<^verbatim>\<open>\n\<close>, \<^verbatim>\<open>\r\<close>, \<^verbatim>\<open>\r\n\<close> or one of the
  other line boundaries (code points 11, 12, 28, 29, 30 and 133 below 256); the line
  ends are dropped and no empty last line is produced.
\<close>

definition is_linebreak :: "char \<Rightarrow> bool" where
  "is_linebreak c = (of_char c \<in> {10, 11, 12, 13, 28, 29, 30, 133 :: nat})"

fun splitlines :: "string \<Rightarrow> string list" where
  "splitlines [] = []"
| "splitlines [c] = (if is_linebreak c then [[]] else [[c]])"
| "splitlines (c # d # cs) =
     (if of_char c = (13::nat) \<and> of_char d = (10::nat) then [] # splitlines cs
      else if is_linebreak c then [] # splitlines (d # cs)
      else (case splitlines (d # cs) of
              [] \<Rightarrow> [[c]]
            | l # ls \<Rightarrow> (c # l) # ls))"

text \<open>
  The child process is outside the program: \<^verbatim>\<open>subprocess.run\<close> is a parameter that
  maps the argument vector to the completed process (exit status and the two captured
  streams, already decoded).
\<close>

record completed_process =
  returncode :: int
  stdout :: string
  stderr :: string

definition git_log_cmd :: "string \<Rightarrow> string list" where
  "git_log_cmd repo_path =
     [''git'', ''-C'', repo_path, ''log'', ''--numstat'', ''--pretty=format:commit %H'']"

definition run_git_log :: "(string list \<Rightarrow> completed_process) \<Rightarrow> string \<Rightarrow> py_error + string list" where
  "run_git_log run repo_path =
     (let cmd = git_log_cmd repo_path;
          result = run cmd
      in if returncode result \<noteq> 0
         then Inl (RuntimeError (''Git command failed: '' @ stderr result))
         else Inr (splitlines (stdout result)))"

text \<open>\<^verbatim>\<open>main\<close> up to the aggregation; writing the document and the charts follows it.\<close>

definition main ::
  "(string list \<Rightarrow> completed_process) \<Rightarrow> nat \<Rightarrow> string
     \<Rightarrow> py_error + ((string \<times> metric) list \<times> (string \<times> metric) list)" where
  "main run maxd repo =
     (case run_git_log run repo of
        Inl e \<Rightarrow> Inl e
      | Inr lines \<Rightarrow>
          (case parse_git_numstat maxd lines of
             Inl e \<Rightarrow> Inl e
           | Inr file_churn_list \<Rightarrow> Inr (aggregate_churn file_churn_list)))"

section \<open>Forecast dashboard: \<^verbatim>\<open>defect_forecast_streamlit.py\<close>\<close>

subsection \<open>Column detection\<close>

text \<open>\<^verbatim>\<open>str.lower\<close> on code points below 256: the letters A to Z and the accented
  capitals 192 to 222 (without the multiplication sign 215) move up by 32.\<close>

definition py_lower_chr :: "char \<Rightarrow> char" where
  "py_lower_chr c =
     (let n = (of_char c :: nat)
      in if (65 \<le> n \<and> n \<le> 90) \<or> (192 \<le> n \<and> n \<le> 222 \<and> n \<noteq> 215) then char_of (n + 32) else c)"

definition lower :: "string \<Rightarrow> string" where
  "lower s = map py_lower_chr s"

text \<open>\<^verbatim>\<open>sub in text\<close>: \<open>sub\<close> occurs in \<open>text\<close> as a contiguous piece.\<close>

fun py_in :: "string \<Rightarrow> string \<Rightarrow> bool" where
  "py_in sub [] = (sub = [])"
| "py_in sub (c # cs) = (startswith (c # cs) sub \<or> py_in sub cs)"

text \<open>
  The script stops (\<^verbatim>\<open>st.error\<close> followed by \<^verbatim>\<open>st.stop\<close>) when a search finds
  nothing.  \<^verbatim>\<open>df.rename(columns={old: new}, inplace=True)\<close> replaces the label in the
  column list, so the search for the week column reads the list after the first
  renaming.  The result gives the two chosen labels and the final column list.
\<close>

datatype st_halt = NoDefectColumn | NoWeekColumn

definition rename_column :: "string \<Rightarrow> string \<Rightarrow> string list \<Rightarrow> string list" where
  "rename_column old new columns = map (\<lambda>c. if c = old then new else c) columns"

definition detect_columns :: "string list \<Rightarrow> st_halt + (string \<times> string \<times> string list)" where
  "detect_columns columns =
     (let possible_cols = filter (\<lambda>c. py_in ''defect'' (lower c)) columns
      in if possible_cols = [] then Inl NoDefectColumn
         else
           let columns1 = rename_column (hd possible_cols) ''defects_reported'' columns;
               possible_weeks = filter (\<lambda>c. py_in ''week'' (lower c)) columns1
           in if possible_weeks = [] then Inl NoWeekColumn
              else Inr (hd possible_cols, hd possible_weeks,
                        rename_column (hd possible_weeks) ''week_start'' columns1))"

text \<open>The claim's reading: the first column, in the order of the input, whose lowercased
  name contains the token.\<close>

definition first_match :: "string \<Rightarrow> string list \<Rightarrow> string option" where
  "first_match token columns = find (\<lambda>c. py_in token (lower c)) columns"

definition defect_column :: "string list \<Rightarrow> string option" where
  "defect_column columns =
     (case detect_columns columns of Inl _ \<Rightarrow> None | Inr (d, w, cs) \<Rightarrow> Some d)"

definition week_column :: "string list \<Rightarrow> string option" where
  "week_column columns =
     (case detect_columns columns of Inl _ \<Rightarrow> None | Inr (d, w, cs) \<Rightarrow> Some w)"

subsection \<open>Binary64 arithmetic\<close>

text \<open>
  \<^verbatim>\<open>numpy\<close> computes in IEEE binary64.  A binary64 number is modelled by its rational
  value, and an operation by the exact result rounded to the nearest binary64 number,
  ties to the even significand.  \<open>rne\<close> rounds a rational to the nearest integer, ties to
  even; \<open>flog2 x\<close> is the integer part of the binary logarithm of a positive \<open>x\<close>;
  \<open>fexp x\<close> is the exponent of the unit in the last place of \<open>x\<close>, 52 below that of \<open>x\<close>
  and never below the one of the subnormal numbers.  Results of magnitude \<open>2^1024\<close> and
  more, where binary64 has infinities, and the sign of zero are outside the model.
\<close>

definition rne :: "rat \<Rightarrow> int" where
  "rne q = (let f = \<lfloor>q\<rfloor>; r = q - of_int f
            in if r < 1 / 2 then f else if 1 / 2 < r then f + 1 else if even f then f else f + 1)"

definition flog2 :: "rat \<Rightarrow> int" where
  "flog2 x = (if 1 \<le> x then bitlen \<lfloor>x\<rfloor> - 1 else - bitlen (\<lceil>1 / x\<rceil> - 1))"

definition fexp :: "rat \<Rightarrow> int" where
  "fexp x = max (flog2 \<bar>x\<bar> - 52) (- 1074)"

definition rnd64 :: "rat \<Rightarrow> rat" where
  "rnd64 x = (if x = 0 then 0 else of_int (rne (x / 2 powi fexp x)) * 2 powi fexp x)"

definition fadd :: "rat \<Rightarrow> rat \<Rightarrow> rat" where
  "fadd a b = rnd64 (a + b)"

definition fdiv :: "rat \<Rightarrow> rat \<Rightarrow> rat" where
  "fdiv a b = rnd64 (a / b)"

subsection \<open>\<^verbatim>\<open>numpy.mean\<close>\<close>

text \<open>
  \<^verbatim>\<open>np.mean\<close> of a list converts the elements to binary64, adds them with
  \<^verbatim>\<open>numpy\<close>'s pairwise summation and divides by the count.  The summation adds fewer
  than 8 elements from left to right; up to 128 elements with eight running sums over
  the blocks of 8, combined as a balanced tree, followed by the elements left over; and
  more elements by splitting at about the middle, at a multiple of 8.  The reduction
  starts from the unit 0.  (An array of integers longer than the 8192 elements of
  \<^verbatim>\<open>numpy\<close>'s buffer is converted and reduced buffer by buffer; the model reduces it in
  one piece.)  The mean of an empty list is \<^verbatim>\<open>nan\<close>: \<open>None\<close>.
\<close>

definition combine8 :: "rat list \<Rightarrow> rat" where
  "combine8 r =
     fadd (fadd (fadd (r ! 0) (r ! 1)) (fadd (r ! 2) (r ! 3)))
          (fadd (fadd (r ! 4) (r ! 5)) (fadd (r ! 6) (r ! 7)))"

fun acc8 :: "rat list \<Rightarrow> rat list \<Rightarrow> rat list \<times> rat list" where
  "acc8 r xs =
     (if length xs < 8 then (r, xs)
      else acc8 (map (\<lambda>(s, x). fadd s x) (zip r (take 8 xs))) (drop 8 xs))"

declare acc8.simps [simp del]

function pairwise_sum :: "rat list \<Rightarrow> rat" where
  "pairwise_sum a =
     (if length a < 8 then foldl fadd 0 a
      else if length a \<le> 128 then
        (case acc8 (take 8 a) (drop 8 a) of (r, rest) \<Rightarrow> foldl fadd (combine8 r) rest)
      else
        (let n2 = length a div 2 - (length a div 2) mod 8
         in fadd (pairwise_sum (take n2 a)) (pairwise_sum (drop n2 a))))"
  by pat_completeness auto
termination
  by (relation "measure length") auto

declare pairwise_sum.simps [simp del]

definition float_mean :: "rat list \<Rightarrow> rat" where
  "float_mean xs = fdiv (fadd 0 (pairwise_sum (map rnd64 xs))) (rnd64 (of_nat (length xs)))"

definition np_mean :: "rat list \<Rightarrow> rat option" where
  "np_mean xs = (if xs = [] then None else Some (float_mean xs))"

subsection \<open>Forecast strategies\<close>

text \<open>
  A series value is a rational: an integer read from the file, or the value of a binary64
  number.  \<open>None\<close> as the result of the moving average marks a run that produces
  \<^verbatim>\<open>nan\<close>.  The \<^verbatim>\<open>linear\<close> branch is the result of \<^verbatim>\<open>numpy.polyfit\<close>, a
  least-squares solver of the linear-algebra library working in binary64, and is not
  modelled.
\<close>

text \<open>The slice \<^verbatim>\<open>data[-window:]\<close> for any integer \<open>window\<close>.\<close>

definition tail_slice :: "int \<Rightarrow> 'a list \<Rightarrow> 'a list" where
  "tail_slice window xs =
     (if 0 < window then drop (length xs - nat window) xs else drop (nat (- window)) xs)"

fun ma_loop :: "int \<Rightarrow> nat \<Rightarrow> rat list \<Rightarrow> rat list \<Rightarrow> rat list option" where
  "ma_loop window 0 data forecast = Some forecast"
| "ma_loop window (Suc n) data forecast =
     (case (if window \<le> int (length data) then np_mean (tail_slice window data) else np_mean data) of
        None \<Rightarrow> None
      | Some ma \<Rightarrow> ma_loop window n (data @ [ma]) (forecast @ [ma]))"

definition moving_average :: "int \<Rightarrow> int \<Rightarrow> rat list \<Rightarrow> rat list option" where
  "moving_average window horizon y = ma_loop window (nat horizon) y []"

text \<open>
  The \<^verbatim>\<open>ewma\<close> branch uses \<open>+\<close>, \<open>-\<close>, \<open>*\<close> and \<open>1\<close> only; it is modelled over any type
  with these operations, with no law assumed about them.  \<^verbatim>\<open>data[0]\<close> of an empty
  list raises \<^verbatim>\<open>IndexError\<close>.
\<close>

fun ewma_fold :: "'a::{plus,minus,times,one} \<Rightarrow> 'a \<Rightarrow> 'a list \<Rightarrow> 'a" where
  "ewma_fold alpha s [] = s"
| "ewma_fold alpha s (val # vals) = ewma_fold alpha (alpha * val + (1 - alpha) * s) vals"

fun ewma_loop :: "'a::{plus,minus,times,one} \<Rightarrow> nat \<Rightarrow> 'a list \<Rightarrow> 'a list \<Rightarrow> py_error + 'a list" where
  "ewma_loop alpha 0 data forecast = Inr forecast"
| "ewma_loop alpha (Suc n) data forecast =
     (case data of
        [] \<Rightarrow> Inl IndexError
      | d0 # rest \<Rightarrow>
          (let s = ewma_fold alpha d0 rest
           in ewma_loop alpha n (data @ [s]) (forecast @ [s])))"

definition ewma :: "'a::{plus,minus,times,one} \<Rightarrow> int \<Rightarrow> 'a list \<Rightarrow> py_error + 'a list" where
  "ewma alpha horizon y = ewma_loop alpha (nat horizon) y []"

subsection \<open>Reference notions for the forecast claims\<close>

text \<open>The last \<open>n\<close> elements of a list, and the mean that one step of the moving average
  appends to the working series \<open>xs\<close>: the mean, as \<^verbatim>\<open>numpy\<close> computes it, of the last
  \<open>w\<close> elements, or of all elements when there are fewer.\<close>

definition last_n :: "nat \<Rightarrow> 'a list \<Rightarrow> 'a list" where
  "last_n n xs = rev (take n (rev xs))"

definition window_mean :: "nat \<Rightarrow> rat list \<Rightarrow> rat" where
  "window_mean w xs = (if w \<le> length xs then float_mean (last_n w xs) else float_mean xs)"

text \<open>The incremental form of the exponentially weighted average: one pass over the
  history gives the running state; each forecast step emits the state and then feeds it
  back as the next observation.\<close>

fun ewma_run :: "'a::{plus,minus,times,one} \<Rightarrow> nat \<Rightarrow> 'a \<Rightarrow> 'a list" where
  "ewma_run alpha 0 s = []"
| "ewma_run alpha (Suc n) s = s # ewma_run alpha n (alpha * s + (1 - alpha) * s)"

definition ewma_incremental :: "'a::{plus,minus,times,one} \<Rightarrow> int \<Rightarrow> 'a list \<Rightarrow> py_error + 'a list" where
  "ewma_incremental alpha horizon y =
     (case y of
        [] \<Rightarrow> Inl IndexError
      | y0 # ys \<Rightarrow> Inr (ewma_run alpha (nat horizon) (foldl (\<lambda>s val. alpha * val + (1 - alpha) * s) y0 ys)))"

text \<open>\<open>sum_within L H j s\<close>: the sum \<open>s\<close> of \<open>j\<close> numbers lies between \<open>j\<close> times \<open>L\<close> and
  \<open>j\<close> times \<open>H\<close>.  \<open>exact_upto L H N\<close>: these bounds are integers of magnitude up to
  \<open>2^53\<close>, hence binary64 numbers, for every count up to \<open>N\<close>.\<close>

definition sum_within :: "int \<Rightarrow> int \<Rightarrow> nat \<Rightarrow> rat \<Rightarrow> bool" where
  "sum_within L H j s = (of_int (int j * L) \<le> s \<and> s \<le> of_int (int j * H))"

definition exact_upto :: "int \<Rightarrow> int \<Rightarrow> nat \<Rightarrow> bool" where
  "exact_upto L H N = (int N * \<bar>L\<bar> \<le> 2 ^ 53 \<and> int N * \<bar>H\<bar> \<le> 2 ^ 53)"

section \<open>Properties of the churn aggregation\<close>

lemma sum_where_Nil [simp]: "sum_where P g [] = 0"
  by (simp add: sum_where_def)

lemma sum_where_Cons [simp]:
  "sum_where P g ((k, v) # d) = (if P k then g v else 0) + sum_where P g d"
  by (simp add: sum_where_def)

lemma sum_where_append [simp]:
  "sum_where P g (d @ e) = sum_where P g d + sum_where P g e"
  by (simp add: sum_where_def)

lemma churn_where_Nil [simp]: "churn_where P g [] = 0"
  by (simp add: churn_where_def)

lemma churn_where_Cons [simp]:
  "churn_where P g ((a, r, p) # recs) = (if P p then g a r else 0) + churn_where P g recs"
  by (simp add: churn_where_def)

lemma dd_update_keys:
  "map fst (dd_update k f d) = (if k \<in> fst ` set d then map fst d else map fst d @ [k])"
  by (induction d) (fastforce simp: image_iff)+

lemma dd_update_distinct:
  "distinct (map fst d) \<Longrightarrow> distinct (map fst (dd_update k f d))"
  by (simp add: dd_update_keys)

lemma dd_update_set_keys: "fst ` set (dd_update k f d) = insert k (fst ` set d)"
  using dd_update_keys [of k f d] by (metis (no_types, lifting) insert_absorb list.set_map set_append list.simps(15) empty_set Un_insert_right sup_bot.right_neutral)

lemma dd_update_sum:
  assumes "\<And>t. g (f t) = g t + c" and "g default_tally = 0"
  shows "sum_where P g (dd_update k f d) = sum_where P g d + (if P k then c else 0)"
  using assms by (induction d) auto


lemma dd_add_added:
  "sum_where P added (dd_update k (\<lambda>t. t\<lparr>added := added t + a\<rparr>) d) = sum_where P added d + (if P k then a else 0)"
  by (rule dd_update_sum) (simp_all add: default_tally_def)

lemma dd_add_removed:
  "sum_where P removed (dd_update k (\<lambda>t. t\<lparr>added := added t + a\<rparr>) d) = sum_where P removed d"
  using dd_update_sum [of removed "\<lambda>t. t\<lparr>added := added t + a\<rparr>" 0 P k d] by (simp add: default_tally_def)

lemma dd_rem_added:
  "sum_where P added (dd_update k (\<lambda>t. t\<lparr>removed := removed t + r\<rparr>) d) = sum_where P added d"
  using dd_update_sum [of added "\<lambda>t. t\<lparr>removed := removed t + r\<rparr>" 0 P k d] by (simp add: default_tally_def)

lemma dd_rem_removed:
  "sum_where P removed (dd_update k (\<lambda>t. t\<lparr>removed := removed t + r\<rparr>) d) = sum_where P removed d + (if P k then r else 0)"
  by (rule dd_update_sum) (simp_all add: default_tally_def)

lemmas dd_sums = dd_add_added dd_add_removed dd_rem_added dd_rem_removed

lemma churn_loop_files_added:
  "sum_where P added (fst (churn_loop recs (fm, mm))) = sum_where P added fm + churn_where P (\<lambda>a r. a) recs"
  by (induction recs "(fm, mm)" arbitrary: fm mm rule: churn_loop.induct)
     (simp_all add: Let_def dd_sums)

lemma churn_loop_files_removed:
  "sum_where P removed (fst (churn_loop recs (fm, mm))) = sum_where P removed fm + churn_where P (\<lambda>a r. r) recs"
  by (induction recs "(fm, mm)" arbitrary: fm mm rule: churn_loop.induct)
     (simp_all add: Let_def dd_sums)

lemma churn_loop_modules_added:
  "sum_where Q added (snd (churn_loop recs (fm, mm))) = sum_where Q added mm + churn_where (\<lambda>p. Q (module_of p)) (\<lambda>a r. a) recs"
  by (induction recs "(fm, mm)" arbitrary: fm mm rule: churn_loop.induct)
     (simp_all add: Let_def dd_sums)

lemma churn_loop_modules_removed:
  "sum_where Q removed (snd (churn_loop recs (fm, mm))) = sum_where Q removed mm + churn_where (\<lambda>p. Q (module_of p)) (\<lambda>a r. r) recs"
  by (induction recs "(fm, mm)" arbitrary: fm mm rule: churn_loop.induct)
     (simp_all add: Let_def dd_sums)

lemma churn_loop_file_keys:
  "fst ` set (fst (churn_loop recs (fm, mm))) = fst ` set fm \<union> (\<lambda>(a, r, p). p) ` set recs"
  by (induction recs "(fm, mm)" arbitrary: fm mm rule: churn_loop.induct)
     (simp_all add: Let_def dd_update_set_keys)

lemma churn_loop_module_keys:
  "fst ` set (snd (churn_loop recs (fm, mm))) = fst ` set mm \<union> (\<lambda>(a, r, p). module_of p) ` set recs"
  by (induction recs "(fm, mm)" arbitrary: fm mm rule: churn_loop.induct)
     (simp_all add: Let_def dd_update_set_keys)

lemma churn_loop_distinct:
  "distinct (map fst fm) \<Longrightarrow> distinct (map fst mm) \<Longrightarrow>
   distinct (map fst (fst (churn_loop recs (fm, mm)))) \<and> distinct (map fst (snd (churn_loop recs (fm, mm))))"
  by (induction recs "(fm, mm)" arbitrary: fm mm rule: churn_loop.induct)
     (simp_all add: Let_def dd_update_distinct)

lemma sum_where_with_total:
  "sum_where P total_churn (map (\<lambda>(k, t). (k, with_total t)) d) = sum_where P added d + sum_where P removed d"
  "sum_where P added (map (\<lambda>(k, t). (k, with_total t)) d) = sum_where P added d"
  "sum_where P removed (map (\<lambda>(k, t). (k, with_total t)) d) = sum_where P removed d"
  by (induction d) (auto simp: with_total_def)

lemma churn_where_plus:
  "churn_where P (\<lambda>a r. a) recs + churn_where P (\<lambda>a r. r) recs = churn_where P (\<lambda>a r. a + r) recs"
  by (induction recs) auto

lemma sum_where_absent:
  "k \<notin> fst ` set d \<Longrightarrow> sum_where (\<lambda>q. q = k) g d = 0"
  by (induction d) auto

lemma sum_where_key:
  "distinct (map fst d) \<Longrightarrow> (k, v) \<in> set d \<Longrightarrow> sum_where (\<lambda>q. q = k) g d = g v"
  by (induction d) (auto simp: sum_where_absent image_iff)


text \<open>
  Claim C1.  After aggregation the keys of each dictionary are distinct; the total churn
  summed over all file entries, the total churn summed over all module entries and the
  sum of added + removed over the records are the same number; the total churn of a file
  entry is the sum over the records of that path; and the added, removed and total
  fields of a module entry are the sums of those fields over the file entries whose
  parent directory (\<open>module_of\<close>) is that module.
\<close>

theorem aggregate_churn_totals:
  "let (files, modules) = aggregate_churn recs in
     distinct (map fst files) \<and> distinct (map fst modules) \<and>
     sum_where (\<lambda>_. True) total_churn files = churn_where (\<lambda>_. True) (\<lambda>a r. a + r) recs \<and>
     sum_where (\<lambda>_. True) total_churn modules = churn_where (\<lambda>_. True) (\<lambda>a r. a + r) recs \<and>
     (\<forall>(p, m) \<in> set files. total_churn m = churn_where (\<lambda>q. q = p) (\<lambda>a r. a + r) recs) \<and>
     (\<forall>(k, m) \<in> set modules.
          added m = sum_where (\<lambda>p. module_of p = k) added files \<and>
          removed m = sum_where (\<lambda>p. module_of p = k) removed files \<and>
          total_churn m = sum_where (\<lambda>p. module_of p = k) total_churn files)"
proof -
  obtain fm mm where loop: "churn_loop recs ([], []) = (fm, mm)"
    by (cases "churn_loop recs ([], [])")
  define files where "files = map (\<lambda>(k, t). (k, with_total t)) fm"
  define modules where "modules = map (\<lambda>(k, t). (k, with_total t)) mm"
  have agg: "aggregate_churn recs = (files, modules)"
    by (simp add: aggregate_churn_def loop files_def modules_def)
  have fm: "fm = fst (churn_loop recs ([], []))" and mm: "mm = snd (churn_loop recs ([], []))"
    by (simp_all add: loop)
  have keys: "map fst files = map fst fm" "map fst modules = map fst mm"
    by (simp_all add: files_def modules_def comp_def case_prod_beta)
  have dist: "distinct (map fst files)" "distinct (map fst modules)"
    using churn_loop_distinct [of "[]" "[]" recs] by (simp_all add: keys fm mm)
  have f_added: "sum_where P added files = churn_where P (\<lambda>a r. a) recs" for P
    by (simp add: files_def sum_where_with_total fm churn_loop_files_added)
  have f_removed: "sum_where P removed files = churn_where P (\<lambda>a r. r) recs" for P
    by (simp add: files_def sum_where_with_total fm churn_loop_files_removed)
  have f_total: "sum_where P total_churn files = churn_where P (\<lambda>a r. a + r) recs" for P
    by (simp add: files_def sum_where_with_total fm churn_loop_files_added
        churn_loop_files_removed churn_where_plus)
  have m_added: "sum_where Q added modules = churn_where (\<lambda>p. Q (module_of p)) (\<lambda>a r. a) recs" for Q
    by (simp add: modules_def sum_where_with_total mm churn_loop_modules_added)
  have m_removed: "sum_where Q removed modules = churn_where (\<lambda>p. Q (module_of p)) (\<lambda>a r. r) recs" for Q
    by (simp add: modules_def sum_where_with_total mm churn_loop_modules_removed)
  have m_total: "sum_where Q total_churn modules = churn_where (\<lambda>p. Q (module_of p)) (\<lambda>a r. a + r) recs" for Q
    by (simp add: modules_def sum_where_with_total mm churn_loop_modules_added
        churn_loop_modules_removed churn_where_plus)
  have per_file: "total_churn m = churn_where (\<lambda>q. q = p) (\<lambda>a r. a + r) recs"
    if "(p, m) \<in> set files" for p m
    using sum_where_key [OF dist(1) that, of total_churn] by (simp add: f_total)
  have per_module:
    "added m = sum_where (\<lambda>p. module_of p = k) added files \<and>
     removed m = sum_where (\<lambda>p. module_of p = k) removed files \<and>
     total_churn m = sum_where (\<lambda>p. module_of p = k) total_churn files"
    if "(k, m) \<in> set modules" for k m
    using sum_where_key [OF dist(2) that, of added] sum_where_key [OF dist(2) that, of removed]
      sum_where_key [OF dist(2) that, of total_churn]
    by (simp add: f_added f_removed f_total m_added m_removed m_total)
  show ?thesis
    unfolding agg using dist f_total [of "\<lambda>_. True"] m_total [of "\<lambda>_. True"] per_file per_module
    by auto
qed


lemma aggregate_churn_example:
  "aggregate_churn
     [(1, 2, ''a/b/c.txt''), (3, 4, ''root.txt''), (5, 6, ''a/b/d.txt''), (7, 8, ''a/b/c.txt'')] =
   ([(''a/b/c.txt'', \<lparr>added = 8, removed = 10, total_churn = 18\<rparr>),
     (''root.txt'', \<lparr>added = 3, removed = 4, total_churn = 7\<rparr>),
     (''a/b/d.txt'', \<lparr>added = 5, removed = 6, total_churn = 11\<rparr>)],
    [(''a/b'', \<lparr>added = 13, removed = 16, total_churn = 29\<rparr>),
     (''.'', \<lparr>added = 3, removed = 4, total_churn = 7\<rparr>)])"
  by code_simp

theorem aggregate_churn_totals_witness:
  "(''a/b/c.txt'', \<lparr>added = 8, removed = 10, total_churn = 18\<rparr>)
     \<in> set (fst (aggregate_churn
          [(1, 2, ''a/b/c.txt''), (3, 4, ''root.txt''), (5, 6, ''a/b/d.txt''), (7, 8, ''a/b/c.txt'')])) \<and>
   (''a/b'', \<lparr>added = 13, removed = 16, total_churn = 29\<rparr>)
     \<in> set (snd (aggregate_churn
          [(1, 2, ''a/b/c.txt''), (3, 4, ''root.txt''), (5, 6, ''a/b/d.txt''), (7, 8, ''a/b/c.txt'')])) \<and>
   churn_where (\<lambda>q. q = ''a/b/c.txt'') (\<lambda>a r. a + r)
     [(1, 2, ''a/b/c.txt''), (3, 4, ''root.txt''), (5, 6, ''a/b/d.txt''), (7, 8, ''a/b/c.txt'')] = 18 \<and>
   sum_where (\<lambda>p. module_of p = ''a/b'') total_churn
     (fst (aggregate_churn
          [(1, 2, ''a/b/c.txt''), (3, 4, ''root.txt''), (5, 6, ''a/b/d.txt''), (7, 8, ''a/b/c.txt'')])) = 29"
  using aggregate_churn_totals
    [of "[(1, 2, ''a/b/c.txt''), (3, 4, ''root.txt''), (5, 6, ''a/b/d.txt''), (7, 8, ''a/b/c.txt'')]"]
  unfolding aggregate_churn_example by simp

subsection \<open>Paths and module keys\<close>

lemma py_split_nonempty: "py_split sep s \<noteq> []"
  by (induction s) (auto split: list.splits)

lemma py_split_no_sep: "sep \<notin> set w \<Longrightarrow> py_split sep w = [w]"
  by (induction w) auto

lemma py_split_append: "sep \<notin> set w \<Longrightarrow> py_split sep (w @ sep # rest) = w # py_split sep rest"
  by (induction w) auto

lemma py_split_join:
  "cs \<noteq> [] \<Longrightarrow> \<forall>c\<in>set cs. CHR ''/'' \<notin> set c \<Longrightarrow> py_split (CHR ''/'') (join_slash cs) = cs"
  by (induction cs rule: join_slash.induct) (simp_all add: py_split_no_sep py_split_append)

lemma join_slash_hd:
  "cs \<noteq> [] \<Longrightarrow> hd cs \<noteq> [] \<Longrightarrow> take 1 (join_slash cs) = [hd (hd cs)]"
  by (induction cs rule: join_slash.induct) (auto simp: take_Suc neq_Nil_conv)

lemma Path_join:
  assumes "cs \<noteq> []" and "\<forall>c\<in>set cs. wf_component c"
  shows "Path (join_slash cs) = \<lparr>p_root = [], p_parts = cs\<rparr>"
proof -
  have 1: "py_split (CHR ''/'') (join_slash cs) = cs"
    using assms by (intro py_split_join) (auto simp: wf_component_def)
  have "hd cs \<noteq> []" "CHR ''/'' \<notin> set (hd cs)"
    using assms by (auto simp: wf_component_def)
  then have 2: "take 1 (join_slash cs) \<noteq> ''/''"
    using join_slash_hd [of cs] assms(1) by (cases "hd cs") auto
  have 3: "filter (\<lambda>x. x \<noteq> [] \<and> x \<noteq> ''.'') cs = cs"
    using assms(2) by (auto simp: wf_component_def filter_id_conv)
  show ?thesis
    using 2 by (simp add: Path_def 1 3)
qed

lemma Path_dot: "Path ''.'' = \<lparr>p_root = [], p_parts = []\<rparr>"
  by (simp add: Path_def)

lemma module_of_join:
  assumes "cs \<noteq> []" and "\<forall>c\<in>set cs. wf_component c"
  shows "module_of (join_slash cs) = (if length cs = 1 then ''.'' else join_slash (butlast cs))"
proof (cases "length cs = 1")
  case True
  then show ?thesis
    using assms by (auto simp: module_of_def Path_join Path_dot parent_def length_Suc_conv)
next
  case False
  with assms(1) have "butlast cs \<noteq> []"
    by (cases cs) (auto)
  with False show ?thesis
    using assms by (simp add: module_of_def Path_join Path_dot parent_def as_posix_def)
qed

lemma module_of_no_slash:
  assumes "CHR ''/'' \<notin> set path"
  shows "module_of path = ''.''"
proof -
  have "take 1 path \<noteq> ''/''"
    using assms by (cases path) auto
  then show ?thesis
    using assms by (auto simp: module_of_def Path_def Path_dot parent_def as_posix_def py_split_no_sep)
qed

lemma aggregate_fst: "fst (aggregate_churn recs) = map (\<lambda>(k, t). (k, with_total t)) (fst (churn_loop recs ([], [])))"
  by (simp add: aggregate_churn_def split_beta)

lemma aggregate_snd: "snd (aggregate_churn recs) = map (\<lambda>(k, t). (k, with_total t)) (snd (churn_loop recs ([], [])))"
  by (simp add: aggregate_churn_def split_beta)

lemma map_fst_with_total: "map (fst \<circ> (\<lambda>(k, t). (k, with_total t))) d = map fst d"
  by (simp add: comp_def case_prod_beta)

lemma aggregate_distinct:
  "distinct (map fst (fst (aggregate_churn recs)))" "distinct (map fst (snd (aggregate_churn recs)))"
  using churn_loop_distinct [of "[]" "[]" recs]
  by (simp_all add: aggregate_fst aggregate_snd map_fst_with_total)

lemma keys_with_total: "fst ` (\<lambda>(k, t). (k, with_total t)) ` set d = fst ` set d"
  by (simp add: image_image case_prod_beta)

lemma aggregate_file_keys: "fst ` set (fst (aggregate_churn recs)) = (\<lambda>(a, r, p). p) ` set recs"
  by (simp add: aggregate_fst keys_with_total churn_loop_file_keys)

lemma aggregate_module_keys: "fst ` set (snd (aggregate_churn recs)) = (\<lambda>(a, r, p). module_of p) ` set recs"
  by (simp add: aggregate_snd keys_with_total churn_loop_module_keys)

lemma aggregate_file_sums:
  "sum_where P added (fst (aggregate_churn recs)) = churn_where P (\<lambda>a r. a) recs"
  "sum_where P removed (fst (aggregate_churn recs)) = churn_where P (\<lambda>a r. r) recs"
  "sum_where P total_churn (fst (aggregate_churn recs)) = churn_where P (\<lambda>a r. a + r) recs"
  by (simp_all add: aggregate_fst sum_where_with_total churn_loop_files_added
      churn_loop_files_removed churn_where_plus)

lemma aggregate_module_sums:
  "sum_where Q added (snd (aggregate_churn recs)) = churn_where (\<lambda>p. Q (module_of p)) (\<lambda>a r. a) recs"
  "sum_where Q removed (snd (aggregate_churn recs)) = churn_where (\<lambda>p. Q (module_of p)) (\<lambda>a r. r) recs"
  "sum_where Q total_churn (snd (aggregate_churn recs)) = churn_where (\<lambda>p. Q (module_of p)) (\<lambda>a r. a + r) recs"
  by (simp_all add: aggregate_snd sum_where_with_total churn_loop_modules_added
      churn_loop_modules_removed churn_where_plus)

lemma module_entry:
  assumes "(k, m) \<in> set (snd (aggregate_churn recs))"
  shows "added m = churn_where (\<lambda>p. module_of p = k) (\<lambda>a r. a) recs"
    and "removed m = churn_where (\<lambda>p. module_of p = k) (\<lambda>a r. r) recs"
    and "total_churn m = churn_where (\<lambda>p. module_of p = k) (\<lambda>a r. a + r) recs"
  using sum_where_key [OF aggregate_distinct(2) assms, of added]
    sum_where_key [OF aggregate_distinct(2) assms, of removed]
    sum_where_key [OF aggregate_distinct(2) assms, of total_churn]
  by (simp_all add: aggregate_module_sums)

lemma file_entry:
  assumes "(k, m) \<in> set (fst (aggregate_churn recs))"
  shows "added m = churn_where (\<lambda>p. p = k) (\<lambda>a r. a) recs"
    and "removed m = churn_where (\<lambda>p. p = k) (\<lambda>a r. r) recs"
    and "total_churn m = churn_where (\<lambda>p. p = k) (\<lambda>a r. a + r) recs"
  using sum_where_key [OF aggregate_distinct(1) assms, of added]
    sum_where_key [OF aggregate_distinct(1) assms, of removed]
    sum_where_key [OF aggregate_distinct(1) assms, of total_churn]
  by (simp_all add: aggregate_file_sums)

lemma files_lookup: "map_of (fst (aggregate_churn recs)) = tally_by (\<lambda>p. p) recs"
proof
  fix k
  show "map_of (fst (aggregate_churn recs)) k = tally_by (\<lambda>p. p) recs k"
  proof (cases "k \<in> (\<lambda>(a, r, p). p) ` set recs")
    case True
    then obtain m where m: "(k, m) \<in> set (fst (aggregate_churn recs))"
      unfolding aggregate_file_keys [symmetric] by force
    then have "map_of (fst (aggregate_churn recs)) k = Some m"
      using aggregate_distinct(1) by simp
    moreover have "m = \<lparr>added = churn_where (\<lambda>p. p = k) (\<lambda>a r. a) recs,
                 removed = churn_where (\<lambda>p. p = k) (\<lambda>a r. r) recs,
                 total_churn = churn_where (\<lambda>p. p = k) (\<lambda>a r. a + r) recs\<rparr>"
      using file_entry [OF m] by (cases m) simp
    ultimately show ?thesis using True by (simp add: tally_by_def)
  next
    case False
    then have "map_of (fst (aggregate_churn recs)) k = None"
      unfolding aggregate_file_keys [symmetric] by (simp add: map_of_eq_None_iff)
    then show ?thesis using False by (simp add: tally_by_def)
  qed
qed

lemma modules_lookup: "map_of (snd (aggregate_churn recs)) = tally_by module_of recs"
proof
  fix k
  show "map_of (snd (aggregate_churn recs)) k = tally_by module_of recs k"
  proof (cases "k \<in> (\<lambda>(a, r, p). module_of p) ` set recs")
    case True
    then obtain m where m: "(k, m) \<in> set (snd (aggregate_churn recs))"
      unfolding aggregate_module_keys [symmetric] by force
    then have "map_of (snd (aggregate_churn recs)) k = Some m"
      using aggregate_distinct(2) by simp
    moreover have "m = \<lparr>added = churn_where (\<lambda>p. module_of p = k) (\<lambda>a r. a) recs,
                 removed = churn_where (\<lambda>p. module_of p = k) (\<lambda>a r. r) recs,
                 total_churn = churn_where (\<lambda>p. module_of p = k) (\<lambda>a r. a + r) recs\<rparr>"
      using module_entry [OF m] by (cases m) simp
    ultimately show ?thesis using True by (simp add: tally_by_def)
  next
    case False
    then have "map_of (snd (aggregate_churn recs)) k = None"
      unfolding aggregate_module_keys [symmetric] by (simp add: map_of_eq_None_iff)
    then show ?thesis using False by (simp add: tally_by_def)
  qed
qed

lemma churn_where_mset:
  "churn_where P g recs =
   sum_mset (image_mset (\<lambda>(a, r, p). g a r) (filter_mset (\<lambda>(a, r, p). P p) (mset recs)))"
  by (induction recs) auto

lemma churn_where_none:
  "k \<notin> (\<lambda>(a, r, p). key p) ` set recs \<Longrightarrow> churn_where (\<lambda>p. key p = k) g recs = 0"
  by (induction recs) auto

lemma churn_where_perm: "mset xs = mset ys \<Longrightarrow> churn_where P g xs = churn_where P g ys"
  by (simp only: churn_where_mset)

lemma churn_where_union:
  "mset recs = mset xs + mset ys \<Longrightarrow> churn_where P g recs = churn_where P g xs + churn_where P g ys"
  by (simp only: churn_where_mset filter_union_mset image_mset_union sum_mset.union)

lemma tally_by_perm:
  assumes "mset xs = mset ys"
  shows "tally_by key xs = tally_by key ys"
proof
  fix k
  have "set xs = set ys"
    using assms by (rule mset_eq_setD)
  then show "tally_by key xs k = tally_by key ys k"
    unfolding tally_by_def
    by (simp only: churn_where_perm [OF assms])
qed

lemma tally_by_None: "k \<notin> (\<lambda>(a, r, p). key p) ` set recs \<Longrightarrow> tally_by key recs k = None"
  by (simp add: tally_by_def)

lemma tally_by_Some:
  "k \<in> (\<lambda>(a, r, p). key p) ` set recs \<Longrightarrow>
   tally_by key recs k =
     Some \<lparr>added = churn_where (\<lambda>p. key p = k) (\<lambda>a r. a) recs,
           removed = churn_where (\<lambda>p. key p = k) (\<lambda>a r. r) recs,
           total_churn = churn_where (\<lambda>p. key p = k) (\<lambda>a r. a + r) recs\<rparr>"
  by (simp add: tally_by_def)

lemma tally_by_merge:
  assumes "mset recs = mset xs + mset ys"
  shows "tally_by key recs = merge_metrics (tally_by key xs) (tally_by key ys)"
proof
  fix k
  let ?K = "\<lambda>zs. (\<lambda>(a, r, p). key p) ` set zs"
  have sum: "churn_where P g recs = churn_where P g xs + churn_where P g ys" for P g
    using assms by (rule churn_where_union)
  have "set recs = set xs \<union> set ys"
    using assms by (metis set_mset_mset set_mset_union)
  then have keys: "?K recs = ?K xs \<union> ?K ys"
    by (simp only: image_Un)
  consider (both) "k \<in> ?K xs" "k \<in> ?K ys" | (left) "k \<in> ?K xs" "k \<notin> ?K ys"
    | (right) "k \<notin> ?K xs" "k \<in> ?K ys" | (none) "k \<notin> ?K xs" "k \<notin> ?K ys"
    by blast
  then show "tally_by key recs k = merge_metrics (tally_by key xs) (tally_by key ys) k"
  proof cases
    case both
    then have "k \<in> ?K recs" unfolding keys by blast
    then show ?thesis
      using both by (simp add: tally_by_Some merge_metrics_def merge_metric_def sum)
  next
    case left
    then have "k \<in> ?K recs" unfolding keys by blast
    then show ?thesis
      using left by (simp add: tally_by_Some tally_by_None merge_metrics_def sum churn_where_none)
  next
    case right
    then have "k \<in> ?K recs" unfolding keys by blast
    then show ?thesis
      using right by (simp add: tally_by_Some tally_by_None merge_metrics_def sum churn_where_none)
  next
    case none
    then have "k \<notin> ?K recs" unfolding keys by blast
    then show ?thesis
      using none by (simp add: tally_by_None merge_metrics_def)
  qed
qed

lemma module_of_abc: "module_of ''a/b/c.txt'' = ''a/b''"
  by code_simp

lemma module_of_root_file: "module_of ''root.txt'' = ''.''"
  by code_simp

lemma set_of_distinct_dict:
  "distinct (map fst d) \<Longrightarrow> set d = {(k, v). map_of d k = Some v}"
  by auto


text \<open>
  Claim C3.  A record is aggregated under the key \<open>module_of path\<close>: the keys of the
  module dictionary are the \<open>module_of\<close> images of the record paths, and the entry of a
  key sums the records with that image.  For a relative path of well-formed components
  \<open>module_of\<close> is the text before the last slash, and the sentinel \<^verbatim>\<open>.\<close> when there is
  one component only; every path without a slash goes to the sentinel; in particular
  \<^verbatim>\<open>a/b/c.txt\<close> goes to \<^verbatim>\<open>a/b\<close> and \<^verbatim>\<open>root.txt\<close> to \<^verbatim>\<open>.\<close>.
\<close>

theorem module_key_is_parent_directory:
  "(cs \<noteq> [] \<and> (\<forall>c\<in>set cs. wf_component c) \<longrightarrow>
      module_of (join_slash cs) = (if length cs = 1 then ''.'' else join_slash (butlast cs))) \<and>
   (CHR ''/'' \<notin> set path \<longrightarrow> module_of path = ''.'') \<and>
   module_of ''a/b/c.txt'' = ''a/b'' \<and>
   module_of ''root.txt'' = ''.'' \<and>
   fst ` set (snd (aggregate_churn recs)) = (\<lambda>(a, r, p). module_of p) ` set recs \<and>
   (\<forall>(k, m) \<in> set (snd (aggregate_churn recs)).
      added m = churn_where (\<lambda>p. module_of p = k) (\<lambda>a r. a) recs \<and>
      removed m = churn_where (\<lambda>p. module_of p = k) (\<lambda>a r. r) recs \<and>
      total_churn m = churn_where (\<lambda>p. module_of p = k) (\<lambda>a r. a + r) recs)"
proof (intro conjI impI ballI)
  assume "cs \<noteq> [] \<and> (\<forall>c\<in>set cs. wf_component c)"
  then show "module_of (join_slash cs) = (if length cs = 1 then ''.'' else join_slash (butlast cs))"
    using module_of_join [of cs] by blast
next
  assume "CHR ''/'' \<notin> set path"
  then show "module_of path = ''.''"
    by (rule module_of_no_slash)
next
  show "module_of ''a/b/c.txt'' = ''a/b''"
    by (rule module_of_abc)
  show "module_of ''root.txt'' = ''.''"
    by (rule module_of_root_file)
  show "fst ` set (snd (aggregate_churn recs)) = (\<lambda>(a, r, p). module_of p) ` set recs"
    by (rule aggregate_module_keys)
next
  fix e
  assume e: "e \<in> set (snd (aggregate_churn recs))"
  obtain k m where km: "e = (k, m)"
    by (cases e)
  show "case e of (k, m) \<Rightarrow>
      added m = churn_where (\<lambda>p. module_of p = k) (\<lambda>a r. a) recs \<and>
      removed m = churn_where (\<lambda>p. module_of p = k) (\<lambda>a r. r) recs \<and>
      total_churn m = churn_where (\<lambda>p. module_of p = k) (\<lambda>a r. a + r) recs"
    using module_entry [of k m recs] e unfolding km by simp
qed

lemma module_of_abd: "module_of ''a/b/d.txt'' = ''a/b''"
  by code_simp

theorem module_key_is_parent_directory_witness:
  "module_of (join_slash [''a'', ''b'', ''c.txt'']) = join_slash [''a'', ''b''] \<and>
   join_slash [''a'', ''b'', ''c.txt''] = ''a/b/c.txt'' \<and>
   module_of ''root.txt'' = ''.'' \<and>
   (''a/b'', \<lparr>added = 13, removed = 16, total_churn = 29\<rparr>)
     \<in> set (snd (aggregate_churn
          [(1, 2, ''a/b/c.txt''), (3, 4, ''root.txt''), (5, 6, ''a/b/d.txt''), (7, 8, ''a/b/c.txt'')])) \<and>
   churn_where (\<lambda>p. module_of p = ''a/b'') (\<lambda>a r. a)
     [(1, 2, ''a/b/c.txt''), (3, 4, ''root.txt''), (5, 6, ''a/b/d.txt''), (7, 8, ''a/b/c.txt'')] = 13"
  using module_key_is_parent_directory
    [of "[''a'', ''b'', ''c.txt'']" "''root.txt''"
        "[(1, 2, ''a/b/c.txt''), (3, 4, ''root.txt''), (5, 6, ''a/b/d.txt''), (7, 8, ''a/b/c.txt'')]"]
  unfolding aggregate_churn_example
  by (simp add: wf_component_def module_of_abc module_of_abd module_of_root_file)

text \<open>
  Claim C8.  Two record lists that are permutations of each other give the same file
  entries and the same module entries (as mappings from key to metric, and as sets of
  entries); and the result for a record list split into two shards is the field-wise sum
  of the results of the shards.
\<close>

theorem aggregate_churn_order_independent:
  "(mset xs = mset ys \<longrightarrow>
      map_of (fst (aggregate_churn xs)) = map_of (fst (aggregate_churn ys)) \<and>
      map_of (snd (aggregate_churn xs)) = map_of (snd (aggregate_churn ys)) \<and>
      set (fst (aggregate_churn xs)) = set (fst (aggregate_churn ys)) \<and>
      set (snd (aggregate_churn xs)) = set (snd (aggregate_churn ys))) \<and>
   (mset recs = mset xs + mset ys \<longrightarrow>
      map_of (fst (aggregate_churn recs)) =
        merge_metrics (map_of (fst (aggregate_churn xs))) (map_of (fst (aggregate_churn ys))) \<and>
      map_of (snd (aggregate_churn recs)) =
        merge_metrics (map_of (snd (aggregate_churn xs))) (map_of (snd (aggregate_churn ys))))"
proof (intro conjI impI)
  assume perm: "mset xs = mset ys"
  show f: "map_of (fst (aggregate_churn xs)) = map_of (fst (aggregate_churn ys))"
    by (simp only: files_lookup tally_by_perm [OF perm])
  show m: "map_of (snd (aggregate_churn xs)) = map_of (snd (aggregate_churn ys))"
    by (simp only: modules_lookup tally_by_perm [OF perm])
  show "set (fst (aggregate_churn xs)) = set (fst (aggregate_churn ys))"
    by (simp only: set_of_distinct_dict [OF aggregate_distinct(1)] f)
  show "set (snd (aggregate_churn xs)) = set (snd (aggregate_churn ys))"
    by (simp only: set_of_distinct_dict [OF aggregate_distinct(2)] m)
next
  assume split: "mset recs = mset xs + mset ys"
  show "map_of (fst (aggregate_churn recs)) =
      merge_metrics (map_of (fst (aggregate_churn xs))) (map_of (fst (aggregate_churn ys)))"
    by (simp only: files_lookup tally_by_merge [OF split])
  show "map_of (snd (aggregate_churn recs)) =
      merge_metrics (map_of (snd (aggregate_churn xs))) (map_of (snd (aggregate_churn ys)))"
    by (simp only: modules_lookup tally_by_merge [OF split])
qed

theorem aggregate_churn_order_independent_witness:
  "mset [(1::int, 2::int, ''a/x''), (3, 4, ''b'')] = mset [(3, 4, ''b''), (1, 2, ''a/x'')] \<and>
   map_of (fst (aggregate_churn [(1, 2, ''a/x''), (3, 4, ''b'')])) =
     map_of (fst (aggregate_churn [(3, 4, ''b''), (1, 2, ''a/x'')])) \<and>
   map_of (snd (aggregate_churn [(1, 2, ''a/x''), (3, 4, ''b'')])) =
     map_of (snd (aggregate_churn [(3, 4, ''b''), (1, 2, ''a/x'')])) \<and>
   mset [(1::int, 2::int, ''a/x''), (3, 4, ''b''), (5, 6, ''b'')] =
     mset [(1, 2, ''a/x''), (3, 4, ''b'')] + mset [(5, 6, ''b'')] \<and>
   map_of (fst (aggregate_churn [(1, 2, ''a/x''), (3, 4, ''b''), (5, 6, ''b'')])) =
     merge_metrics (map_of (fst (aggregate_churn [(1, 2, ''a/x''), (3, 4, ''b'')])))
       (map_of (fst (aggregate_churn [(5, 6, ''b'')])))"
proof -
  have perm: "mset [(1::int, 2::int, ''a/x''), (3, 4, ''b'')] = mset [(3, 4, ''b''), (1, 2, ''a/x'')]"
    by simp
  have shards: "mset [(1::int, 2::int, ''a/x''), (3, 4, ''b''), (5, 6, ''b'')] =
      mset [(1, 2, ''a/x''), (3, 4, ''b'')] + mset [(5, 6, ''b'')]"
    by simp
  show ?thesis
    using perm shards
      aggregate_churn_order_independent
        [of "[(1, 2, ''a/x''), (3, 4, ''b'')]" "[(3, 4, ''b''), (1, 2, ''a/x'')]"]
      aggregate_churn_order_independent
        [of "[(1, 2, ''a/x''), (3, 4, ''b'')]" "[(5, 6, ''b'')]"
            "[(1, 2, ''a/x''), (3, 4, ''b''), (5, 6, ''b'')]"]
    by blast
qed

text \<open>The dictionaries keep insertion order, so the order of the entries (not their
  content) follows the order of the records.\<close>

lemma aggregate_churn_insertion_order:
  "map fst (fst (aggregate_churn [(1, 2, ''a/x''), (3, 4, ''b'')])) = [''a/x'', ''b'']"
  "map fst (fst (aggregate_churn [(3, 4, ''b''), (1, 2, ''a/x'')])) = [''b'', ''a/x'']"
  by code_simp+

section \<open>Properties of the numstat parser\<close>

lemma py_split_length: "length (py_split sep s) = Suc (length (filter (\<lambda>c. c = sep) s))"
  by (induction s) (auto split: list.splits)

lemma py_split_unfold:
  "py_split sep s =
     takeWhile (\<lambda>c. c \<noteq> sep) s #
       (if sep \<in> set s then py_split sep (tl (dropWhile (\<lambda>c. c \<noteq> sep) s)) else [])"
proof (induction s)
  case Nil
  show ?case by simp
next
  case (Cons c cs)
  show ?case
  proof (cases "c = sep")
    case True
    then show ?thesis by simp
  next
    case False
    then show ?thesis
      using Cons.IH by (simp split: list.splits)
  qed
qed

lemma filter_after_tab:
  "sep \<in> set s \<Longrightarrow>
   length (filter (\<lambda>c. c = sep) (tl (dropWhile (\<lambda>c. c \<noteq> sep) s))) =
   length (filter (\<lambda>c. c = sep) s) - 1"
  by (induction s) auto

lemma tab_in_iff: "sep \<in> set s \<longleftrightarrow> 0 < length (filter (\<lambda>c. c = sep) s)"
  by (induction s) auto

lemma after_tab_count:
  "TAB \<in> set s \<Longrightarrow>
   length (filter (\<lambda>c. c = TAB) (after_tab s)) = length (filter (\<lambda>c. c = TAB) s) - 1"
  unfolding after_tab_def by (rule filter_after_tab)

lemma py_split_step: "TAB \<in> set s \<Longrightarrow> py_split TAB s = field1 s # py_split TAB (after_tab s)"
  unfolding field1_def after_tab_def by (subst py_split_unfold) simp

lemma py_split_three:
  assumes "length (filter (\<lambda>c. c = TAB) s) = 2"
  shows "py_split TAB s = [field1 s, field1 (after_tab s), after_tab (after_tab s)]"
proof -
  have in1: "TAB \<in> set s"
    unfolding tab_in_iff assms by simp
  have c1: "length (filter (\<lambda>c. c = TAB) (after_tab s)) = 1"
    unfolding after_tab_count [OF in1] assms by simp
  have in2: "TAB \<in> set (after_tab s)"
    unfolding tab_in_iff c1 by simp
  have c2: "length (filter (\<lambda>c. c = TAB) (after_tab (after_tab s))) = 0"
    unfolding after_tab_count [OF in2] c1 by simp
  have out3: "TAB \<notin> set (after_tab (after_tab s))"
    unfolding tab_in_iff c2 by simp
  show ?thesis
    by (simp only: py_split_step [OF in1] py_split_step [OF in2] py_split_no_sep [OF out3])
qed

lemma py_int_cases: "py_int maxd s = Inl ValueError \<or> (\<exists>n. py_int maxd s = Inr n)"
  by (simp add: py_int_def Let_def split: option.splits)

lemma parse_line_eq:
  "parse_line maxd line = Inr (if accepted maxd line then Some (record_of maxd line) else None)"
proof (cases "length (filter (\<lambda>c. c = TAB) (py_strip line)) = 2")
  case True
  note three = py_split_three [OF True]
  show ?thesis
    using py_int_cases [of maxd "field1 (py_strip line)"]
      py_int_cases [of maxd "field1 (after_tab (py_strip line))"]
    by (auto simp: parse_line_def accepted_def record_of_def Let_def three True
        parses_as_int_def int_value_def)
next
  case False
  then have "length (py_split TAB (py_strip line)) \<noteq> 3"
    by (simp add: py_split_length)
  then show ?thesis
    using False by (simp add: parse_line_def accepted_def Let_def)
qed

lemma numstat_loop_eq:
  "numstat_loop maxd lines acc = Inr (acc @ map (record_of maxd) (filter (accepted maxd) lines))"
  by (induction lines arbitrary: acc) (simp_all add: parse_line_eq)

text \<open>
  Claim C2.  For every list of lines (and every setting of the interpreter's digit limit)
  the parser returns normally, and its result is, in input order, one record for each
  accepted line and nothing for any other line.
\<close>

theorem parse_git_numstat_accepts_exactly:
  "parse_git_numstat maxd lines = Inr (map (record_of maxd) (filter (accepted maxd) lines))"
  by (simp add: parse_git_numstat_def numstat_loop_eq)

lemma binary_marker_not_int: "py_int maxd ''-'' = Inl ValueError"
  by (simp add: py_int_def int_space_def)

lemma numstat_example:
  "map (record_of 4300)
     (filter (accepted 4300)
        [''commit 1a2b'', '''', ''10'' @ [TAB] @ ''2'' @ [TAB] @ ''a/b/c.txt'',
         ''-'' @ [TAB] @ ''-'' @ [TAB] @ ''img.png'', ''3'' @ [TAB] @ ''x'']) =
   [(10, 2, ''a/b/c.txt'')]"
  by code_simp

theorem parse_git_numstat_accepts_exactly_witness:
  "parse_git_numstat 4300
     [''commit 1a2b'', '''', ''10'' @ [TAB] @ ''2'' @ [TAB] @ ''a/b/c.txt'',
      ''-'' @ [TAB] @ ''-'' @ [TAB] @ ''img.png'', ''3'' @ [TAB] @ ''x''] =
   Inr [(10, 2, ''a/b/c.txt'')]"
  using parse_git_numstat_accepts_exactly
    [of 4300 "[''commit 1a2b'', '''', ''10'' @ [TAB] @ ''2'' @ [TAB] @ ''a/b/c.txt'',
         ''-'' @ [TAB] @ ''-'' @ [TAB] @ ''img.png'', ''3'' @ [TAB] @ ''x'']"]
  by (simp only: numstat_example)

section \<open>Properties of the log extraction\<close>

text \<open>
  Claim C9.  \<^verbatim>\<open>run_git_log\<close> ends in an error exactly when the command's exit status is
  not zero; the error is the \<^verbatim>\<open>RuntimeError\<close> that carries the captured error text, and
  the run ends with that same error, so nothing is parsed or aggregated; with exit status
  zero the result is the captured standard output split into lines.
\<close>

theorem run_git_log_fails_iff_nonzero_exit:
  "((\<exists>e. run_git_log run repo = Inl e) \<longleftrightarrow> returncode (run (git_log_cmd repo)) \<noteq> 0) \<and>
   (returncode (run (git_log_cmd repo)) \<noteq> 0 \<longrightarrow>
      run_git_log run repo =
        Inl (RuntimeError (''Git command failed: '' @ stderr (run (git_log_cmd repo)))) \<and>
      main run maxd repo =
        Inl (RuntimeError (''Git command failed: '' @ stderr (run (git_log_cmd repo))))) \<and>
   (returncode (run (git_log_cmd repo)) = 0 \<longrightarrow>
      run_git_log run repo = Inr (splitlines (stdout (run (git_log_cmd repo)))))"
  by (simp add: run_git_log_def main_def Let_def)

lemma splitlines_example:
  "splitlines (''commit 1a2b'' @ [char_of (10::nat)] @ ''1'' @ [TAB] @ ''2'' @ [TAB] @ ''f.py'' @ [char_of (10::nat)]) =
   [''commit 1a2b'', ''1'' @ [TAB] @ ''2'' @ [TAB] @ ''f.py'']"
  by code_simp

theorem run_git_log_fails_iff_nonzero_exit_witness:
  "run_git_log (\<lambda>cmd. \<lparr>returncode = 128, stdout = [], stderr = ''fatal: not a git repository''\<rparr>) ''/tmp/x'' =
     Inl (RuntimeError ''Git command failed: fatal: not a git repository'') \<and>
   main (\<lambda>cmd. \<lparr>returncode = 128, stdout = [], stderr = ''fatal: not a git repository''\<rparr>) 4300 ''/tmp/x'' =
     Inl (RuntimeError ''Git command failed: fatal: not a git repository'') \<and>
   run_git_log (\<lambda>cmd. \<lparr>returncode = 0,
        stdout = ''commit 1a2b'' @ [char_of (10::nat)] @ ''1'' @ [TAB] @ ''2'' @ [TAB] @ ''f.py'' @ [char_of (10::nat)],
        stderr = []\<rparr>) ''/tmp/x'' =
     Inr [''commit 1a2b'', ''1'' @ [TAB] @ ''2'' @ [TAB] @ ''f.py'']"
proof -
  let ?bad = "\<lambda>cmd :: string list. \<lparr>returncode = 128, stdout = [], stderr = ''fatal: not a git repository''\<rparr>"
  let ?out = "''commit 1a2b'' @ [char_of (10::nat)] @ ''1'' @ [TAB] @ ''2'' @ [TAB] @ ''f.py'' @ [char_of (10::nat)]"
  let ?good = "\<lambda>cmd :: string list. \<lparr>returncode = 0, stdout = ?out, stderr = []\<rparr>"
  have bad: "returncode (?bad (git_log_cmd ''/tmp/x'')) \<noteq> 0"
    by simp
  have good: "returncode (?good (git_log_cmd ''/tmp/x'')) = 0"
    by simp
  have msg: "''Git command failed: '' @ stderr (?bad (git_log_cmd ''/tmp/x'')) =
      ''Git command failed: fatal: not a git repository''"
    by simp
  have out: "stdout (?good (git_log_cmd ''/tmp/x'')) = ?out"
    by simp
  have 1: "run_git_log ?bad ''/tmp/x'' = Inl (RuntimeError ''Git command failed: fatal: not a git repository'') \<and>
      main ?bad 4300 ''/tmp/x'' = Inl (RuntimeError ''Git command failed: fatal: not a git repository'')"
    using run_git_log_fails_iff_nonzero_exit [of ?bad "''/tmp/x''" 4300] bad
    unfolding msg by blast
  have 2: "run_git_log ?good ''/tmp/x'' = Inr [''commit 1a2b'', ''1'' @ [TAB] @ ''2'' @ [TAB] @ ''f.py'']"
    using run_git_log_fails_iff_nonzero_exit [of ?good "''/tmp/x''" 4300] good
    unfolding out splitlines_example by blast
  show ?thesis
    using 1 2 by blast
qed

section \<open>Properties of the column detection\<close>

lemma filter_empty_find: "filter P xs = [] \<longleftrightarrow> find P xs = None"
  by (induction xs) auto

lemma hd_filter_find: "find P xs = Some x \<Longrightarrow> hd (filter P xs) = x"
  by (induction xs) (auto split: if_splits)

lemma find_rename:
  assumes "\<not> P new"
  shows "find P (rename_column old new xs) = find (\<lambda>c. c \<noteq> old \<and> P c) xs"
  using assms by (induction xs) (auto simp: rename_column_def)

lemma week_not_in_defects_reported: "\<not> py_in ''week'' (lower ''defects_reported'')"
  by code_simp

lemma detect_columns_eq:
  "detect_columns columns =
     (case first_match ''defect'' columns of
        None \<Rightarrow> Inl NoDefectColumn
      | Some d \<Rightarrow>
          (case find (\<lambda>c. c \<noteq> d \<and> py_in ''week'' (lower c)) columns of
             None \<Rightarrow> Inl NoWeekColumn
           | Some w \<Rightarrow>
               Inr (d, w, rename_column w ''week_start'' (rename_column d ''defects_reported'' columns))))"
proof (cases "first_match ''defect'' columns")
  case None
  then have "filter (\<lambda>c. py_in ''defect'' (lower c)) columns = []"
    by (simp add: first_match_def filter_empty_find)
  then show ?thesis
    using None by (simp add: detect_columns_def)
next
  case (Some d)
  then have f: "find (\<lambda>c. py_in ''defect'' (lower c)) columns = Some d"
    by (simp add: first_match_def)
  have ne: "filter (\<lambda>c. py_in ''defect'' (lower c)) columns \<noteq> []"
    using f by (simp add: filter_empty_find)
  have hd: "hd (filter (\<lambda>c. py_in ''defect'' (lower c)) columns) = d"
    using f by (rule hd_filter_find)
  let ?cols1 = "rename_column d ''defects_reported'' columns"
  have w: "find (\<lambda>c. py_in ''week'' (lower c)) ?cols1 =
      find (\<lambda>c. c \<noteq> d \<and> py_in ''week'' (lower c)) columns"
    using week_not_in_defects_reported by (rule find_rename)
  show ?thesis
  proof (cases "find (\<lambda>c. c \<noteq> d \<and> py_in ''week'' (lower c)) columns")
    case None
    then have "filter (\<lambda>c. py_in ''week'' (lower c)) ?cols1 = []"
      using w by (simp add: filter_empty_find)
    then show ?thesis
      using Some None ne hd by (simp add: detect_columns_def Let_def)
  next
    case (Some w')
    then have fw: "find (\<lambda>c. py_in ''week'' (lower c)) ?cols1 = Some w'"
      using w by simp
    have ne': "filter (\<lambda>c. py_in ''week'' (lower c)) ?cols1 \<noteq> []"
      using fw by (simp add: filter_empty_find)
    have hd': "hd (filter (\<lambda>c. py_in ''week'' (lower c)) ?cols1) = w'"
      using fw by (rule hd_filter_find)
    show ?thesis
      using \<open>first_match ''defect'' columns = Some d\<close> Some ne hd ne' hd'
      by (simp add: detect_columns_def Let_def)
  qed
qed

lemma detect_example_1:
  "detect_columns [''Week_Start'', ''DefectCount''] =
     Inr (''DefectCount'', ''Week_Start'', [''week_start'', ''defects_reported''])"
  by code_simp

lemma detect_example_2:
  "detect_columns [''WEEK_START'', ''defectcount''] =
     Inr (''defectcount'', ''WEEK_START'', [''week_start'', ''defects_reported''])"
  by code_simp

lemma detect_example_3:
  "detect_columns [''Weekly_Defects'', ''Week_Start''] =
     Inr (''Weekly_Defects'', ''Week_Start'', [''defects_reported'', ''week_start''])"
  by code_simp

lemma first_match_example_3:
  "first_match ''week'' [''Weekly_Defects'', ''Week_Start''] = Some ''Weekly_Defects''"
  by code_simp

text \<open>
  Claim C7, as stated, fails for the week column: with the headers
  \<^verbatim>\<open>Weekly_Defects, Week_Start\<close> the first name that contains \<^verbatim>\<open>week\<close> is
  \<^verbatim>\<open>Weekly_Defects\<close>, but that column has been renamed to \<^verbatim>\<open>defects_reported\<close> when
  the week column is searched, and the script selects \<^verbatim>\<open>Week_Start\<close>.
\<close>

theorem week_column_not_first_match:
  "week_column [''Weekly_Defects'', ''Week_Start''] \<noteq>
   first_match ''week'' [''Weekly_Defects'', ''Week_Start'']"
  by (simp add: week_column_def detect_example_3 first_match_example_3)

text \<open>
  Claim C7, amended.  The defect column is the first column whose lowercased name
  contains \<^verbatim>\<open>defect\<close> (the script stops when there is none); the week column is the
  first column other than that one whose lowercased name contains \<^verbatim>\<open>week\<close> (the script
  stops when there is none); so the week column is the first match for \<^verbatim>\<open>week\<close> whenever
  the defect column's name does not contain \<^verbatim>\<open>week\<close>.  The headers
  \<^verbatim>\<open>Week_Start, DefectCount\<close> give \<^verbatim>\<open>DefectCount\<close> and \<^verbatim>\<open>Week_Start\<close>, in any
  letter case.
\<close>

theorem detect_columns_first_match:
  "detect_columns columns =
     (case first_match ''defect'' columns of
        None \<Rightarrow> Inl NoDefectColumn
      | Some d \<Rightarrow>
          (case find (\<lambda>c. c \<noteq> d \<and> py_in ''week'' (lower c)) columns of
             None \<Rightarrow> Inl NoWeekColumn
           | Some w \<Rightarrow>
               Inr (d, w, rename_column w ''week_start'' (rename_column d ''defects_reported'' columns)))) \<and>
   (\<forall>d. first_match ''defect'' columns = Some d \<and> \<not> py_in ''week'' (lower d) \<longrightarrow>
        find (\<lambda>c. c \<noteq> d \<and> py_in ''week'' (lower c)) columns = first_match ''week'' columns) \<and>
   detect_columns [''Week_Start'', ''DefectCount''] =
     Inr (''DefectCount'', ''Week_Start'', [''week_start'', ''defects_reported'']) \<and>
   detect_columns [''WEEK_START'', ''defectcount''] =
     Inr (''defectcount'', ''WEEK_START'', [''week_start'', ''defects_reported''])"
proof (intro conjI allI impI)
  show "detect_columns columns =
     (case first_match ''defect'' columns of
        None \<Rightarrow> Inl NoDefectColumn
      | Some d \<Rightarrow>
          (case find (\<lambda>c. c \<noteq> d \<and> py_in ''week'' (lower c)) columns of
             None \<Rightarrow> Inl NoWeekColumn
           | Some w \<Rightarrow>
               Inr (d, w, rename_column w ''week_start'' (rename_column d ''defects_reported'' columns))))"
    by (rule detect_columns_eq)
next
  fix d
  assume "first_match ''defect'' columns = Some d \<and> \<not> py_in ''week'' (lower d)"
  then have "\<not> py_in ''week'' (lower d)"
    by simp
  then have "(\<lambda>c. c \<noteq> d \<and> py_in ''week'' (lower c)) = (\<lambda>c. py_in ''week'' (lower c))"
    by auto
  then show "find (\<lambda>c. c \<noteq> d \<and> py_in ''week'' (lower c)) columns = first_match ''week'' columns"
    by (simp add: first_match_def)
next
  show "detect_columns [''Week_Start'', ''DefectCount''] =
     Inr (''DefectCount'', ''Week_Start'', [''week_start'', ''defects_reported''])"
    by (rule detect_example_1)
  show "detect_columns [''WEEK_START'', ''defectcount''] =
     Inr (''defectcount'', ''WEEK_START'', [''week_start'', ''defects_reported''])"
    by (rule detect_example_2)
qed

lemma first_match_example_1:
  "first_match ''defect'' [''Week_Start'', ''DefectCount''] = Some ''DefectCount''"
  "\<not> py_in ''week'' (lower ''DefectCount'')"
  "first_match ''week'' [''Week_Start'', ''DefectCount''] = Some ''Week_Start''"
  by code_simp+

theorem detect_columns_first_match_witness:
  "first_match ''defect'' [''Week_Start'', ''DefectCount''] = Some ''DefectCount'' \<and>
   \<not> py_in ''week'' (lower ''DefectCount'') \<and>
   find (\<lambda>c. c \<noteq> ''DefectCount'' \<and> py_in ''week'' (lower c)) [''Week_Start'', ''DefectCount''] =
     Some ''Week_Start'' \<and>
   detect_columns [''Week_Start'', ''DefectCount''] =
     Inr (''DefectCount'', ''Week_Start'', [''week_start'', ''defects_reported''])"
proof -
  have pre: "first_match ''defect'' [''Week_Start'', ''DefectCount''] = Some ''DefectCount'' \<and>
      \<not> py_in ''week'' (lower ''DefectCount'')"
    by (intro conjI first_match_example_1)
  have week: "find (\<lambda>c. c \<noteq> ''DefectCount'' \<and> py_in ''week'' (lower c)) [''Week_Start'', ''DefectCount''] =
      first_match ''week'' [''Week_Start'', ''DefectCount'']"
    using detect_columns_first_match [of "[''Week_Start'', ''DefectCount'']"] pre by blast
  show ?thesis
    unfolding week by (intro conjI first_match_example_1 detect_example_1)
qed

section \<open>Properties of the forecast strategies\<close>

subsection \<open>Exponentially weighted average\<close>

lemma ewma_fold_foldl: "ewma_fold alpha s vals = foldl (\<lambda>s val. alpha * val + (1 - alpha) * s) s vals"
  by (induction vals arbitrary: s) simp_all

lemma ewma_fold_snoc:
  "ewma_fold alpha s (vals @ [v]) = alpha * v + (1 - alpha) * ewma_fold alpha s vals"
  by (induction vals arbitrary: s) simp_all

lemma ewma_loop_run:
  "ewma_loop alpha n (d0 # rest) forecast =
     Inr (forecast @ ewma_run alpha n (ewma_fold alpha d0 rest))"
proof (induction n arbitrary: rest forecast)
  case 0
  show ?case by simp
next
  case (Suc n)
  show ?case
    using Suc.IH [of "rest @ [ewma_fold alpha d0 rest]" "forecast @ [ewma_fold alpha d0 rest]"]
    by (simp add: Let_def ewma_fold_snoc)
qed

lemma length_ewma_run: "length (ewma_run alpha n s) = n"
  by (induction n arbitrary: s) simp_all

text \<open>In exact arithmetic the fed-back state does not move: every forecast value is the
  smoothed value of the history.\<close>

lemma ewma_run_exact: "ewma_run (alpha :: 'a :: comm_ring_1) n s = replicate n s"
proof (induction n)
  case 0
  show ?case by simp
next
  case (Suc n)
  have "alpha * s + (1 - alpha) * s = s"
    by (simp add: algebra_simps)
  then show ?case
    using Suc.IH by simp
qed

text \<open>
  Claim C5.  For a non-empty history the \<^verbatim>\<open>ewma\<close> branch, which folds the whole growing
  series again at every step, returns the same forecast values as the incremental form
  with one running state, and returns exactly \<open>horizon\<close> of them.  This holds for every
  smoothing factor and for any arithmetic, since no law of \<open>+\<close>, \<open>-\<close> or \<open>*\<close> is used.
\<close>

theorem ewma_refold_equals_incremental:
  "y \<noteq> [] \<longrightarrow>
     ewma alpha horizon y = ewma_incremental alpha horizon y \<and>
     (\<exists>forecast. ewma alpha horizon y = Inr forecast \<and> length forecast = nat horizon)"
proof
  assume "y \<noteq> []"
  then obtain y0 ys where y: "y = y0 # ys"
    by (cases y) auto
  have run: "ewma alpha horizon y = Inr (ewma_run alpha (nat horizon) (ewma_fold alpha y0 ys))"
    by (simp add: ewma_def y ewma_loop_run)
  have inc: "ewma_incremental alpha horizon y = Inr (ewma_run alpha (nat horizon) (ewma_fold alpha y0 ys))"
    by (simp add: ewma_incremental_def y ewma_fold_foldl)
  show "ewma alpha horizon y = ewma_incremental alpha horizon y \<and>
     (\<exists>forecast. ewma alpha horizon y = Inr forecast \<and> length forecast = nat horizon)"
    by (simp add: run inc length_ewma_run)
qed

lemma ewma_example: "ewma (1 / 2 :: rat) 2 [1, 2, 3] = Inr [9 / 4, 9 / 4]"
  by (simp add: ewma_def numeral_2_eq_2 Let_def)

theorem ewma_refold_equals_incremental_witness:
  "[1, 2, 3 :: rat] \<noteq> [] \<and>
   ewma (1 / 2 :: rat) 2 [1, 2, 3] = ewma_incremental (1 / 2) 2 [1, 2, 3] \<and>
   ewma (1 / 2 :: rat) 2 [1, 2, 3] = Inr [9 / 4, 9 / 4]"
proof -
  have ne: "[1, 2, 3 :: rat] \<noteq> []"
    by simp
  have "ewma (1 / 2 :: rat) 2 [1, 2, 3] = ewma_incremental (1 / 2) 2 [1, 2, 3]"
    using ewma_refold_equals_incremental [of "[1, 2, 3 :: rat]" "1 / 2" 2] ne by blast
  then show ?thesis
    using ne ewma_example by blast
qed

subsection \<open>Binary64 rounding and the mean\<close>

lemma rne_of_int: "rne (of_int z) = z"
  by (simp add: rne_def)

lemma rne_mono:
  assumes "a \<le> b"
  shows "rne a \<le> rne b"
proof (cases "\<lfloor>a\<rfloor> < \<lfloor>b\<rfloor>")
  case True
  have "rne a \<le> \<lfloor>a\<rfloor> + 1"
    by (simp add: rne_def Let_def)
  moreover have "\<lfloor>b\<rfloor> \<le> rne b"
    by (simp add: rne_def Let_def)
  ultimately show ?thesis
    using True by linarith
next
  case False
  then have eq: "\<lfloor>a\<rfloor> = \<lfloor>b\<rfloor>"
    using floor_mono [OF assms] by linarith
  have "a - of_int \<lfloor>b\<rfloor> \<le> b - of_int \<lfloor>b\<rfloor>"
    using assms by simp
  then show ?thesis
    unfolding rne_def Let_def eq by (auto simp: not_less)
qed

lemma rne_minus: "rne (- q) = - rne q"
proof (cases "q = of_int \<lfloor>q\<rfloor>")
  case True
  then obtain z where "q = of_int z" ..
  then show ?thesis
    using rne_of_int [of z] rne_of_int [of "- z"] by simp
next
  case False
  then have fl: "\<lfloor>- q\<rfloor> = - \<lfloor>q\<rfloor> - 1"
    by (metis (no_types) ceiling_altdef ceiling_def add.commute add_diff_cancel_left' minus_add_distrib minus_minus uminus_add_conv_diff)
  have r: "- q - of_int (- \<lfloor>q\<rfloor> - 1) = 1 - (q - of_int \<lfloor>q\<rfloor>)"
    by simp
  show ?thesis
    unfolding rne_def Let_def fl r by (auto simp: not_less)
qed

lemma rne_ge: "of_int z \<le> q \<Longrightarrow> z \<le> rne q"
  using rne_mono [of "of_int z" q] by (simp add: rne_of_int)

lemma rne_le: "q \<le> of_int z \<Longrightarrow> rne q \<le> z"
  using rne_mono [of q "of_int z"] by (simp add: rne_of_int)

lemma pow2_pos: "0 < (2::rat) powi k"
  by (simp add: zero_less_power_int)

lemma pow2_mono: "m \<le> n \<Longrightarrow> (2::rat) powi m \<le> 2 powi n"
  by (rule power_int_increasing) simp_all

lemma pow2_less_exp: "(2::rat) powi m < 2 powi n \<Longrightarrow> m < n"
  using pow2_mono [of n m] by (cases "m < n") auto

lemma flog2_bounds:
  assumes "0 < x"
  shows "2 powi flog2 x \<le> x \<and> x < 2 powi (flog2 x + 1)"
proof (cases "1 \<le> x")
  case True
  define n where "n = \<lfloor>x\<rfloor>"
  have n: "0 < n"
    using True by (simp add: n_def)
  have k: "flog2 x = bitlen n - 1"
    using True by (simp add: flog2_def n_def)
  have pos: "0 \<le> bitlen n - 1"
    using n bitlen_ge_iff_power [of 1 n] by simp
  from bitlen_bounds [OF n] have 1: "2 ^ nat (bitlen n - 1) \<le> n" and 2: "n < 2 ^ nat (bitlen n)"
    by simp_all
  have "(2::rat) powi (bitlen n - 1) = of_int (2 ^ nat (bitlen n - 1))"
    using pos by (simp add: power_int_def)
  also have "\<dots> \<le> of_int n"
    using 1 by (simp only: of_int_le_iff)
  also have "\<dots> \<le> x"
    by (simp add: n_def)
  finally have lower: "2 powi flog2 x \<le> x"
    by (simp add: k)
  have "n + 1 \<le> 2 ^ nat (bitlen n)"
    using 2 by simp
  then have "(of_int (n + 1) :: rat) \<le> of_int (2 ^ nat (bitlen n))"
    by (simp only: of_int_le_iff)
  moreover have "x < of_int (n + 1)"
    unfolding n_def by linarith
  moreover have "(2::rat) powi (bitlen n) = of_int (2 ^ nat (bitlen n))"
    by (simp add: power_int_def bitlen_nonneg)
  ultimately have "x < 2 powi (flog2 x + 1)"
    by (simp add: k)
  with lower show ?thesis by simp
next
  case False
  define c where "c = \<lceil>1 / x\<rceil>"
  have y: "1 < 1 / x"
    using False assms by simp
  then have c: "2 \<le> c"
    unfolding c_def by linarith
  define j where "j = bitlen (c - 1)"
  have k: "flog2 x = - j"
    using False by (simp add: flog2_def c_def j_def)
  have cpos: "0 < c - 1"
    using c by simp
  have jpos: "1 \<le> j"
    unfolding j_def using cpos bitlen_ge_iff_power [of 1 "c - 1"] by simp
  from bitlen_bounds [OF cpos] have 1: "2 ^ nat (j - 1) \<le> c - 1" and 2: "c - 1 < 2 ^ nat j"
    by (simp_all add: j_def)
  have "1 / x \<le> of_int c"
    unfolding c_def by linarith
  also have "(of_int c :: rat) \<le> of_int (2 ^ nat j)"
    using 2 by (simp only: of_int_le_iff)
  finally have a: "1 / x \<le> 2 ^ nat j"
    by simp
  have "(of_int (2 ^ nat (j - 1)) :: rat) \<le> of_int (c - 1)"
    using 1 by (simp only: of_int_le_iff)
  moreover have "of_int (c - 1) < 1 / x"
    unfolding c_def by linarith
  ultimately have b: "2 ^ nat (j - 1) < 1 / x"
    by simp
  have p1: "(2::rat) powi (- j) = 1 / 2 ^ nat j"
    using jpos by (simp add: power_int_def inverse_eq_divide power_one_over)
  have p2: "(2::rat) powi (- j + 1) = 1 / 2 ^ nat (j - 1)"
  proof (cases "j = 1")
    case True
    then show ?thesis by simp
  next
    case False
    then have "- j + 1 < 0" using jpos by simp
    moreover have "nat (- (- j + 1)) = nat (j - 1)" by simp
    ultimately show ?thesis
      by (simp add: power_int_def inverse_eq_divide power_one_over)
  qed
  have lower: "2 powi flog2 x \<le> x"
    unfolding k p1 using a assms by (simp add: field_simps)
  have upper: "x < 2 powi (flog2 x + 1)"
    unfolding k p2 using b assms by (simp add: field_simps)
  from lower upper show ?thesis by simp
qed

lemma flog2_mono:
  assumes "0 < x" and "x \<le> y"
  shows "flog2 x \<le> flog2 y"
proof -
  have "0 < y" using assms by simp
  have "2 powi flog2 x \<le> x"
    using flog2_bounds [OF assms(1)] by simp
  also have "x \<le> y" by fact
  also have "y < 2 powi (flog2 y + 1)"
    using flog2_bounds [OF \<open>0 < y\<close>] by simp
  finally have "flog2 x < flog2 y + 1"
    by (rule pow2_less_exp)
  then show ?thesis by simp
qed

lemma fexp_minus: "fexp (- x) = fexp x"
  by (simp add: fexp_def)

lemma rnd64_minus: "rnd64 (- x) = - rnd64 x"
  by (simp add: rnd64_def fexp_minus rne_minus)

lemma rnd64_nonneg:
  assumes "0 \<le> x"
  shows "0 \<le> rnd64 x"
proof -
  have "(of_int 0 :: rat) \<le> x / 2 powi fexp x"
    using assms pow2_pos [of "fexp x"] by simp
  then have "0 \<le> rne (x / 2 powi fexp x)"
    by (rule rne_ge)
  then show ?thesis
    using pow2_pos [of "fexp x"] by (simp add: rnd64_def)
qed

lemma fexp_mono:
  assumes "0 < x" and "x \<le> y"
  shows "fexp x \<le> fexp y"
  using flog2_mono [of x y] assms by (simp add: fexp_def)

lemma rnd64_mono_pos:
  assumes "0 < x" and "x \<le> y"
  shows "rnd64 x \<le> rnd64 y"
proof -
  have ypos: "0 < y"
    using assms by simp
  have le: "fexp x \<le> fexp y"
    using assms by (rule fexp_mono)
  show ?thesis
  proof (cases "fexp x = fexp y")
    case True
    have "x / 2 powi fexp y \<le> y / 2 powi fexp y"
      using assms(2) pow2_pos [of "fexp y"] by (simp add: divide_right_mono)
    then have "rne (x / 2 powi fexp y) \<le> rne (y / 2 powi fexp y)"
      by (rule rne_mono)
    then have "(of_int (rne (x / 2 powi fexp y)) :: rat) * 2 powi fexp y \<le>
        of_int (rne (y / 2 powi fexp y)) * 2 powi fexp y"
      using pow2_pos [of "fexp y"] by simp
    then show ?thesis
      using assms(1) ypos by (simp add: rnd64_def True)
  next
    case False
    then have lt: "fexp x < fexp y"
      using le by simp
    have ex: "flog2 x - 52 \<le> fexp x"
      using assms(1) by (simp add: fexp_def)
    have ey: "fexp y = flog2 y - 52"
      using lt ypos by (simp add: fexp_def max_def split: if_splits)
    \<comment> \<open>the rounded \<open>x\<close> stays below the top of its binade\<close>
    have "x < 2 powi (flog2 x + 1)"
      using flog2_bounds [OF assms(1)] by simp
    also have "\<dots> \<le> 2 powi (fexp x + 53)"
      using ex by (intro pow2_mono) simp
    also have "\<dots> = 2 powi 53 * 2 powi fexp x"
      by (simp add: power_int_add mult.commute)
    finally have "x / 2 powi fexp x \<le> of_int (2 ^ 53)"
      using pow2_pos [of "fexp x"] by (simp add: field_simps)
    then have "rne (x / 2 powi fexp x) \<le> 2 ^ 53"
      by (rule rne_le)
    then have "(of_int (rne (x / 2 powi fexp x)) :: rat) \<le> 2 powi 53"
      by (metis of_int_le_iff of_int_numeral of_int_power power_int_numeral)
    then have "rnd64 x \<le> 2 powi 53 * 2 powi fexp x"
      using assms(1) pow2_pos [of "fexp x"] by (simp add: rnd64_def)
    also have "\<dots> = 2 powi (fexp x + 53)"
      by (simp add: power_int_add mult.commute)
    also have "\<dots> \<le> 2 powi (fexp y + 52)"
      using lt by (intro pow2_mono) simp
    finally have upper: "rnd64 x \<le> 2 powi (fexp y + 52)" .
    \<comment> \<open>the rounded \<open>y\<close> stays above the bottom of its binade\<close>
    have "2 powi (fexp y + 52) \<le> y"
      using flog2_bounds [OF ypos] by (simp add: ey)
    then have "2 powi 52 * 2 powi fexp y \<le> y"
      by (simp add: power_int_add mult.commute)
    then have "of_int (2 ^ 52) \<le> y / 2 powi fexp y"
      using pow2_pos [of "fexp y"] by (simp add: field_simps)
    then have "2 ^ 52 \<le> rne (y / 2 powi fexp y)"
      by (rule rne_ge)
    then have "(2::rat) powi 52 \<le> of_int (rne (y / 2 powi fexp y))"
      by (metis of_int_le_iff of_int_numeral of_int_power power_int_numeral)
    then have "2 powi 52 * 2 powi fexp y \<le> rnd64 y"
      using ypos pow2_pos [of "fexp y"] by (simp add: rnd64_def)
    then have "2 powi (fexp y + 52) \<le> rnd64 y"
      by (simp add: power_int_add mult.commute)
    with upper show ?thesis
      by simp
  qed
qed

lemma rnd64_mono:
  assumes "x \<le> y"
  shows "rnd64 x \<le> rnd64 y"
proof -
  consider "0 < x" | "y < 0" | "x \<le> 0" "0 \<le> y"
    by linarith
  then show ?thesis
  proof cases
    case 1
    then show ?thesis using assms by (rule rnd64_mono_pos)
  next
    case 2
    then have "0 < - y" "- y \<le> - x"
      using assms by simp_all
    then have "rnd64 (- y) \<le> rnd64 (- x)"
      by (rule rnd64_mono_pos)
    then show ?thesis
      by (simp add: rnd64_minus)
  next
    case 3
    have "0 \<le> rnd64 (- x)"
      using 3(1) by (intro rnd64_nonneg) simp
    then have "rnd64 x \<le> 0"
      by (simp add: rnd64_minus)
    also have "0 \<le> rnd64 y"
      using 3(2) by (rule rnd64_nonneg)
    finally show ?thesis .
  qed
qed

lemma rnd64_of_nat_exact:
  assumes "k \<le> 2 ^ 53"
  shows "rnd64 (of_nat k) = of_nat k"
proof (cases "k = 0")
  case True
  then show ?thesis by (simp add: rnd64_def)
next
  case False
  define x :: rat where "x = of_nat k"
  have xpos: "0 < x" and x1: "1 \<le> x"
    using False by (simp_all add: x_def)
  have xle: "x \<le> 2 powi 53"
    using assms unfolding x_def by (metis of_nat_le_iff of_nat_numeral of_nat_power power_int_numeral)
  have f0: "0 \<le> flog2 x"
  proof -
    have "(2::rat) powi 0 \<le> x" using x1 by simp
    also have "x < 2 powi (flog2 x + 1)"
      using flog2_bounds [OF xpos] by simp
    finally have "0 < flog2 x + 1" by (rule pow2_less_exp)
    then show ?thesis by simp
  qed
  have f53: "flog2 x \<le> 53"
  proof -
    have "2 powi flog2 x \<le> x"
      using flog2_bounds [OF xpos] by simp
    also have "x < 2 powi 54"
    proof -
      have "(2::rat) powi 53 < 2 powi 54"
        by (rule power_int_strict_increasing) simp_all
      with xle show ?thesis by linarith
    qed
    finally have "flog2 x < 54" by (rule pow2_less_exp)
    then show ?thesis by simp
  qed
  have e: "fexp x = flog2 x - 52"
    using f0 xpos by (simp add: fexp_def)
  have "\<exists>z. x / 2 powi fexp x = of_int z"
  proof (cases "flog2 x = 53")
    case True
    have "2 powi 53 \<le> x"
      using flog2_bounds [OF xpos] by (simp add: True)
    with xle have xeq: "x = 2 powi 53" by simp
    have fe: "fexp x = 1"
      by (simp add: e True)
    have "x / 2 powi fexp x = 2 powi 53 / 2 powi 1"
      by (simp only: fe) (simp only: xeq)
    also have "\<dots> = of_int (2 ^ 52)"
      by simp
    finally show ?thesis ..
  next
    case False
    then have neg: "fexp x \<le> 0"
      using f53 by (simp add: e)
    have "x / 2 powi fexp x = x * 2 powi (- fexp x)"
      by (simp add: power_int_minus field_simps)
    also have "\<dots> = of_int (int k * 2 ^ nat (- fexp x))"
      using neg by (simp add: x_def power_int_def)
    finally show ?thesis ..
  qed
  then obtain z where z: "x / 2 powi fexp x = of_int z" ..
  have "rnd64 x = of_int z * 2 powi fexp x"
    using xpos by (simp add: rnd64_def z rne_of_int)
  also have "\<dots> = x"
    using z pow2_pos [of "fexp x"] by (simp add: field_simps)
  finally show ?thesis
    by (simp add: x_def)
qed

lemma rnd64_of_int_exact:
  assumes "\<bar>k\<bar> \<le> 2 ^ 53"
  shows "rnd64 (of_int k) = of_int k"
proof (cases "0 \<le> k")
  case True
  then have "nat k \<le> 2 ^ 53"
    using assms by (simp add: nat_le_iff)
  from rnd64_of_nat_exact [OF this] show ?thesis
    using True by simp
next
  case False
  then have "nat (- k) \<le> 2 ^ 53"
    using assms by (simp add: nat_le_iff)
  from rnd64_of_nat_exact [OF this] have "rnd64 (of_int (- k)) = of_int (- k)"
    using False by simp
  then show ?thesis
    using rnd64_minus [of "of_int k"] by simp
qed

lemma exact_upto_le:
  assumes "exact_upto L H N" and "j \<le> N"
  shows "\<bar>int j * L\<bar> \<le> 2 ^ 53" and "\<bar>int j * H\<bar> \<le> 2 ^ 53"
proof -
  have "int j * \<bar>L\<bar> \<le> int N * \<bar>L\<bar>" "int j * \<bar>H\<bar> \<le> int N * \<bar>H\<bar>"
    using assms(2) by (simp_all add: mult_right_mono)
  then show "\<bar>int j * L\<bar> \<le> 2 ^ 53" and "\<bar>int j * H\<bar> \<le> 2 ^ 53"
    using assms(1) by (simp_all add: exact_upto_def abs_mult)
qed

lemma rnd64_within:
  assumes "sum_within L H j s" and "exact_upto L H N" and "j \<le> N"
  shows "sum_within L H j (rnd64 s)"
proof -
  from assms(1) have a: "of_int (int j * L) \<le> s" and b: "s \<le> of_int (int j * H)"
    unfolding sum_within_def by blast+
  have "rnd64 (of_int (int j * L)) \<le> rnd64 s"
    using a by (rule rnd64_mono)
  then have 1: "of_int (int j * L) \<le> rnd64 s"
    unfolding rnd64_of_int_exact [OF exact_upto_le(1) [OF assms(2,3)]] .
  have "rnd64 s \<le> rnd64 (of_int (int j * H))"
    using b by (rule rnd64_mono)
  then have 2: "rnd64 s \<le> of_int (int j * H)"
    unfolding rnd64_of_int_exact [OF exact_upto_le(2) [OF assms(2,3)]] .
  from 1 2 show ?thesis
    unfolding sum_within_def by blast
qed

lemma fadd_within:
  assumes "sum_within L H i a" and "sum_within L H j b" and "exact_upto L H N" and "i + j \<le> N"
  shows "sum_within L H (i + j) (fadd a b)"
proof -
  have "sum_within L H (i + j) (a + b)"
    using assms(1,2) by (simp add: sum_within_def algebra_simps)
  then show ?thesis
    unfolding fadd_def using assms(3,4) by (rule rnd64_within)
qed

lemma zero_sum_within: "sum_within L H 0 0"
  by (simp add: sum_within_def)

lemma foldl_fadd_within:
  assumes "exact_upto L H N"
  shows "sum_within L H i s \<Longrightarrow> \<forall>x\<in>set xs. sum_within L H 1 x \<Longrightarrow> i + length xs \<le> N \<Longrightarrow>
     sum_within L H (i + length xs) (foldl fadd s xs)"
proof (induction xs arbitrary: i s)
  case Nil
  then show ?case by simp
next
  case (Cons x xs)
  have "sum_within L H (i + 1) (fadd s x)"
    using Cons.prems by (intro fadd_within [OF _ _ assms]) simp_all
  from Cons.IH [OF this] show ?case
    using Cons.prems by simp
qed

lemma div_mod_drop8:
  assumes "8 \<le> (n::nat)"
  shows "(n - 8) div 8 = n div 8 - 1" and "(n - 8) mod 8 = n mod 8" and "1 \<le> n div 8"
proof -
  obtain m where n: "n = 8 + m"
    using assms le_iff_add by blast
  show "(n - 8) div 8 = n div 8 - 1" and "(n - 8) mod 8 = n mod 8" and "1 \<le> n div 8"
    by (simp_all add: n)
qed

lemma acc8_within:
  assumes "exact_upto L H N"
  shows "length r = 8 \<Longrightarrow> \<forall>s\<in>set r. sum_within L H t s \<Longrightarrow> \<forall>x\<in>set xs. sum_within L H 1 x \<Longrightarrow>
     t + length xs div 8 \<le> N \<Longrightarrow>
     length (fst (acc8 r xs)) = 8 \<and>
     (\<forall>s\<in>set (fst (acc8 r xs)). sum_within L H (t + length xs div 8) s) \<and>
     length (snd (acc8 r xs)) = length xs mod 8 \<and>
     set (snd (acc8 r xs)) \<subseteq> set xs"
proof (induction r xs arbitrary: t rule: acc8.induct)
  case (1 r xs)
  show ?case
  proof (cases "length xs < 8")
    case True
    then have eq: "acc8 r xs = (r, xs)"
      by (subst acc8.simps) simp
    show ?thesis
      unfolding eq using "1.prems"(1,2) True by simp
  next
    case False
    define r' where "r' = map (\<lambda>(s, x). fadd s x) (zip r (take 8 xs))"
    have len: "length r' = 8"
      using False "1.prems"(1) by (simp add: r'_def)
    have ge: "8 \<le> length xs"
      using False by simp
    have d: "length (drop 8 xs) div 8 = length xs div 8 - 1" "length (drop 8 xs) mod 8 = length xs mod 8"
      using div_mod_drop8 [OF ge] by simp_all
    have pos: "1 \<le> length xs div 8"
      using div_mod_drop8 [OF ge] by simp
    have t1: "t + 1 \<le> N"
      using "1.prems"(4) pos by simp
    have w: "\<forall>s\<in>set r'. sum_within L H (t + 1) s"
    proof
      fix s
      assume "s \<in> set r'"
      then obtain a b where ab: "(a, b) \<in> set (zip r (take 8 xs))" "s = fadd a b"
        by (auto simp: r'_def)
      then have "a \<in> set r" "b \<in> set xs"
        by (auto dest: set_zip_leftD set_zip_rightD in_set_takeD)
      then have "sum_within L H t a" "sum_within L H 1 b"
        using "1.prems"(2,3) by simp_all
      then show "sum_within L H (t + 1) s"
        unfolding ab(2) using assms t1 by (rule fadd_within)
    qed
    have rest: "\<forall>x\<in>set (drop 8 xs). sum_within L H 1 x"
      using "1.prems"(3) by (auto dest: in_set_dropD)
    have bound: "t + 1 + length (drop 8 xs) div 8 \<le> N"
      using "1.prems"(4) pos unfolding d(1) by linarith
    note IH = "1.IH" [OF False, folded r'_def]
    from IH [OF len w rest bound]
    have ih: "length (fst (acc8 r' (drop 8 xs))) = 8"
      "\<forall>s\<in>set (fst (acc8 r' (drop 8 xs))). sum_within L H (t + 1 + length (drop 8 xs) div 8) s"
      "length (snd (acc8 r' (drop 8 xs))) = length (drop 8 xs) mod 8"
      "set (snd (acc8 r' (drop 8 xs))) \<subseteq> set (drop 8 xs)"
      by blast+
    have unfold: "acc8 r xs = acc8 r' (drop 8 xs)"
      using False by (subst acc8.simps) (simp add: r'_def)
    have cnt: "t + 1 + length (drop 8 xs) div 8 = t + length xs div 8"
      using pos unfolding d(1) by linarith
    from ih(2) have 2: "\<forall>s\<in>set (fst (acc8 r' (drop 8 xs))). sum_within L H (t + length xs div 8) s"
      unfolding cnt .
    from ih(3) have 3: "length (snd (acc8 r' (drop 8 xs))) = length xs mod 8"
      unfolding d(2) .
    from ih(4) have 4: "set (snd (acc8 r' (drop 8 xs))) \<subseteq> set xs"
      using set_drop_subset [of 8 xs] by blast
    show ?thesis
      unfolding unfold using ih(1) 2 3 4 by blast
  qed
qed

lemma combine8_within:
  assumes "exact_upto L H N" and "length r = 8" and "\<forall>s\<in>set r. sum_within L H t s" and "8 * t \<le> N"
  shows "sum_within L H (8 * t) (combine8 r)"
proof -
  have r: "sum_within L H t (r ! i)" if "i < 8" for i
    using assms(2,3) that by simp
  have two: "sum_within L H (t + t) (fadd (r ! i) (r ! j))" if "i < 8" "j < 8" for i j
    using r [OF that(1)] r [OF that(2)] assms(1) by (rule fadd_within) (use assms(4) in simp)
  have four: "sum_within L H ((t + t) + (t + t)) (fadd (fadd (r ! i) (r ! j)) (fadd (r ! k) (r ! l)))"
    if "i < 8" "j < 8" "k < 8" "l < 8" for i j k l
    using two [OF that(1,2)] two [OF that(3,4)] assms(1) by (rule fadd_within) (use assms(4) in simp)
  have "sum_within L H (((t + t) + (t + t)) + ((t + t) + (t + t))) (combine8 r)"
    unfolding combine8_def
    by (rule fadd_within [OF four four assms(1)]) (use assms(4) in simp_all)
  then show ?thesis
    by (simp add: mult_2 [symmetric] algebra_simps)
qed

lemma pairwise_sum_within:
  assumes "exact_upto L H N"
  shows "\<forall>x\<in>set a. sum_within L H 1 x \<Longrightarrow> length a \<le> N \<Longrightarrow>
     sum_within L H (length a) (pairwise_sum a)"
proof (induction a rule: pairwise_sum.induct)
  case (1 a)
  consider (small) "length a < 8" | (block) "8 \<le> length a" "length a \<le> 128" | (split) "128 < length a"
    by linarith
  then show ?case
  proof cases
    case small
    then have eq: "pairwise_sum a = foldl fadd 0 a"
      by (subst pairwise_sum.simps) simp
    have "sum_within L H (0 + length a) (foldl fadd 0 a)"
      using zero_sum_within "1.prems" by (intro foldl_fadd_within [OF assms]) simp_all
    then show ?thesis
      by (simp add: eq)
  next
    case block
    define r where "r = fst (acc8 (take 8 a) (drop 8 a))"
    define rest where "rest = snd (acc8 (take 8 a) (drop 8 a))"
    have eq: "pairwise_sum a = foldl fadd (combine8 r) rest"
      using block by (subst pairwise_sum.simps) (simp add: r_def rest_def case_prod_beta)
    have dm: "length (drop 8 a) div 8 = length a div 8 - 1" "length (drop 8 a) mod 8 = length a mod 8"
        "1 \<le> length a div 8"
      using div_mod_drop8 [OF block(1)] by simp_all
    have l8: "length (take 8 a) = 8"
      using block(1) by simp
    have w8: "\<forall>s\<in>set (take 8 a). sum_within L H 1 s"
      using "1.prems"(1) by (auto dest: in_set_takeD)
    have wd: "\<forall>x\<in>set (drop 8 a). sum_within L H 1 x"
      using "1.prems"(1) by (auto dest: in_set_dropD)
    have le: "8 * (length a div 8) \<le> length a"
      by simp
    have b: "1 + length (drop 8 a) div 8 \<le> N"
      using dm(3) le "1.prems"(2) unfolding dm(1) by linarith
    have cnt: "1 + length (drop 8 a) div 8 = length a div 8"
      using dm(3) unfolding dm(1) by linarith
    from acc8_within [OF assms l8 w8 wd b]
    have acc: "length r = 8" "\<forall>s\<in>set r. sum_within L H (length a div 8) s"
        "length rest = length a mod 8" "set rest \<subseteq> set (drop 8 a)"
      unfolding r_def rest_def cnt dm(2) by blast+
    have c: "sum_within L H (8 * (length a div 8)) (combine8 r)"
      using assms acc(1,2) by (rule combine8_within) (use le "1.prems"(2) in linarith)
    have wr: "\<forall>x\<in>set rest. sum_within L H 1 x"
      using acc(4) wd by blast
    have total: "8 * (length a div 8) + length rest = length a"
      unfolding acc(3) by simp
    have "sum_within L H (8 * (length a div 8) + length rest) (foldl fadd (combine8 r) rest)"
      using c wr by (rule foldl_fadd_within [OF assms]) (use total "1.prems"(2) in linarith)
    then show ?thesis
      unfolding total eq .
  next
    case split
    define n2 where "n2 = length a div 2 - (length a div 2) mod 8"
    have eq: "pairwise_sum a = fadd (pairwise_sum (take n2 a)) (pairwise_sum (drop n2 a))"
      using split by (subst pairwise_sum.simps) (simp add: n2_def Let_def)
    have g: "\<not> length a < 8" "\<not> length a \<le> 128"
      using split by simp_all
    have n2: "n2 \<le> length a"
      unfolding n2_def by linarith
    have lt: "length (take n2 a) = n2" "length (drop n2 a) = length a - n2"
      using n2 by simp_all
    have 1: "sum_within L H (length (take n2 a)) (pairwise_sum (take n2 a))"
      using "1.prems" n2 by (intro "1.IH"(1) [OF g n2_def]) (auto dest: in_set_takeD)
    have 2: "sum_within L H (length (drop n2 a)) (pairwise_sum (drop n2 a))"
      using "1.prems" n2 by (intro "1.IH"(2) [OF g n2_def]) (auto dest: in_set_dropD)
    have "sum_within L H (length (take n2 a) + length (drop n2 a)) (pairwise_sum a)"
      unfolding eq using 1 2 assms by (rule fadd_within) (use lt n2 "1.prems"(2) in linarith)
    then show ?thesis
      using n2 by (simp add: lt)
  qed
qed

lemma float_mean_bounds:
  assumes ex: "exact_upto L H N" and ne: "xs \<noteq> []" and len: "length xs \<le> N"
    and el: "\<forall>x\<in>set xs. of_int L \<le> x \<and> x \<le> of_int H"
  shows "of_int L \<le> float_mean xs \<and> float_mean xs \<le> of_int H"
proof -
  define n where "n = length xs"
  have npos: "0 < n" and nN: "n \<le> N"
    using ne len by (simp_all add: n_def)
  have one: "1 \<le> N"
    using npos nN by simp
  have w1: "\<forall>x\<in>set (map rnd64 xs). sum_within L H 1 x"
  proof
    fix x
    assume "x \<in> set (map rnd64 xs)"
    then obtain v where v: "v \<in> set xs" "x = rnd64 v"
      by auto
    then have "sum_within L H 1 v"
      using el by (simp add: sum_within_def)
    then show "sum_within L H 1 x"
      unfolding v(2) using ex one by (rule rnd64_within)
  qed
  have "sum_within L H (length (map rnd64 xs)) (pairwise_sum (map rnd64 xs))"
    using w1 len by (intro pairwise_sum_within [OF ex]) simp_all
  then have p: "sum_within L H n (pairwise_sum (map rnd64 xs))"
    by (simp add: n_def)
  have "sum_within L H (0 + n) (fadd 0 (pairwise_sum (map rnd64 xs)))"
    using zero_sum_within p ex by (rule fadd_within) (use nN in simp)
  then have s: "sum_within L H n (fadd 0 (pairwise_sum (map rnd64 xs)))"
    by simp
  define S where "S = fadd 0 (pairwise_sum (map rnd64 xs))"
  have lo: "of_int (int n * L) \<le> S" and hi: "S \<le> of_int (int n * H)"
    using s unfolding S_def sum_within_def by blast+
  have fm: "float_mean xs = rnd64 (S / rnd64 (of_nat n))"
    by (simp add: float_mean_def fdiv_def S_def n_def)
  have exL: "rnd64 (of_int L) = of_int L" and exH: "rnd64 (of_int H) = of_int H"
    using exact_upto_le [OF ex one] by (simp_all add: rnd64_of_int_exact)
  show ?thesis
  proof (cases "L = 0 \<and> H = 0")
    case True
    then have "S = 0"
      using lo hi by simp
    then show ?thesis
      using True by (simp add: fm rnd64_def)
  next
    case False
    then have "1 \<le> \<bar>L\<bar> \<or> 1 \<le> \<bar>H\<bar>"
      by linarith
    then have "int N \<le> 2 ^ 53"
    proof
      assume "1 \<le> \<bar>L\<bar>"
      then have "int N * 1 \<le> int N * \<bar>L\<bar>"
        by (intro mult_left_mono) simp_all
      then show ?thesis using ex by (simp add: exact_upto_def)
    next
      assume "1 \<le> \<bar>H\<bar>"
      then have "int N * 1 \<le> int N * \<bar>H\<bar>"
        by (intro mult_left_mono) simp_all
      then show ?thesis using ex by (simp add: exact_upto_def)
    qed
    then have "n \<le> 2 ^ 53"
      using nN by (metis (no_types, opaque_lifting) le_trans of_nat_le_iff of_nat_numeral of_nat_power)
    then have nx: "rnd64 (of_nat n) = of_nat n"
      by (rule rnd64_of_nat_exact)
    have rpos: "0 < (of_nat n :: rat)"
      using npos by simp
    have "of_int L \<le> S / of_nat n" "S / of_nat n \<le> of_int H"
      using lo hi rpos by (simp_all add: pos_le_divide_eq pos_divide_le_eq mult.commute)
    then have "rnd64 (of_int L) \<le> rnd64 (S / of_nat n)" "rnd64 (S / of_nat n) \<le> rnd64 (of_int H)"
      by (simp_all add: rnd64_mono)
    then show ?thesis
      by (simp add: fm nx exL exH)
  qed
qed

subsection \<open>Moving average\<close>

lemma tail_slice_last_n: "0 < window \<Longrightarrow> tail_slice window xs = last_n (nat window) xs"
  by (simp add: tail_slice_def last_n_def take_rev)

lemma length_last_n: "length (last_n n xs) = min n (length xs)"
  by (simp add: last_n_def)

lemma set_last_n: "set (last_n n xs) \<subseteq> set xs"
  unfolding last_n_def set_rev using set_take_subset [of n "rev xs"] by simp

lemma ma_step:
  assumes "0 < window" and "data \<noteq> []"
  shows "(if window \<le> int (length data) then np_mean (tail_slice window data) else np_mean data) =
     Some (window_mean (nat window) data)"
proof (cases "window \<le> int (length data)")
  case True
  then have le: "nat window \<le> length data"
    by simp
  have "length (last_n (nat window) data) = nat window"
    using le by (simp add: length_last_n)
  then have "last_n (nat window) data \<noteq> []"
    using assms(1) by auto
  then show ?thesis
    using True le assms(1) by (simp add: tail_slice_last_n np_mean_def window_mean_def)
next
  case False
  then have "\<not> nat window \<le> length data"
    by simp
  then show ?thesis
    using False assms(2) by (simp add: np_mean_def window_mean_def)
qed

lemma ma_loop_spec:
  assumes "0 < window" and "data \<noteq> []"
  shows "\<exists>new. ma_loop window n data forecast = Some (forecast @ new) \<and> length new = n \<and>
     (\<forall>k<n. new ! k = window_mean (nat window) (data @ take k new))"
  using assms(2)
proof (induction n arbitrary: data forecast)
  case 0
  show ?case by simp
next
  case (Suc n)
  define ma where "ma = window_mean (nat window) data"
  have step: "(if window \<le> int (length data) then np_mean (tail_slice window data) else np_mean data) = Some ma"
    unfolding ma_def using assms(1) Suc.prems by (rule ma_step)
  have "data @ [ma] \<noteq> []"
    by simp
  from Suc.IH [OF this, of "forecast @ [ma]"]
  obtain new where new: "ma_loop window n (data @ [ma]) (forecast @ [ma]) = Some ((forecast @ [ma]) @ new)"
      "length new = n"
      "\<forall>k<n. new ! k = window_mean (nat window) ((data @ [ma]) @ take k new)"
    by blast
  have 1: "ma_loop window (Suc n) data forecast = Some (forecast @ ma # new)"
    by (simp only: ma_loop.simps step option.case new(1)) simp
  have 2: "length (ma # new) = Suc n"
    by (simp add: new(2))
  have 3: "(ma # new) ! k = window_mean (nat window) (data @ take k (ma # new))" if "k < Suc n" for k
  proof (cases k)
    case 0
    then show ?thesis by (simp add: ma_def)
  next
    case (Suc j)
    then have "j < n" using that by simp
    then show ?thesis
      using new(3) Suc by simp
  qed
  show ?case
    using 1 2 3 by blast
qed

lemma moving_average_example: "moving_average 2 2 [1, 2, 3] = Some [5 / 2, 11 / 4]"
  by code_simp

text \<open>
  Claim C4.  For a non-empty history, a window of at least 2 and a horizon of at least 1
  the moving-average branch returns \<open>horizon\<close> values, and the value at step \<open>k\<close> is the
  mean of the last \<open>window\<close> elements (of all elements when there are fewer) of the working
  series made of the history followed by the \<open>k\<close> values produced before, unrounded.
  Window 2 over \<open>1, 2, 3\<close> with horizon 2 gives \<open>5/2, 11/4\<close>.
\<close>

theorem moving_average_feeds_back:
  "(y \<noteq> [] \<and> 2 \<le> window \<and> 1 \<le> horizon \<longrightarrow>
      (\<exists>forecast. moving_average window horizon y = Some forecast \<and>
          length forecast = nat horizon \<and>
          (\<forall>k<nat horizon. forecast ! k = window_mean (nat window) (y @ take k forecast)))) \<and>
   moving_average 2 2 [1, 2, 3] = Some [5 / 2, 11 / 4]"
proof (intro conjI impI)
  assume a: "y \<noteq> [] \<and> 2 \<le> window \<and> 1 \<le> horizon"
  then have "0 < window" and "y \<noteq> []"
    by simp_all
  from ma_loop_spec [OF this, of "nat horizon" "[]"]
  show "\<exists>forecast. moving_average window horizon y = Some forecast \<and>
          length forecast = nat horizon \<and>
          (\<forall>k<nat horizon. forecast ! k = window_mean (nat window) (y @ take k forecast))"
    by (simp add: moving_average_def)
next
  show "moving_average 2 2 [1, 2, 3] = Some [5 / 2, 11 / 4]"
    by (rule moving_average_example)
qed

theorem moving_average_feeds_back_witness:
  "([1, 2, 3 :: rat] \<noteq> [] \<and> (2::int) \<le> 2 \<and> (1::int) \<le> 2) \<and>
   (\<exists>forecast. moving_average 2 2 [1, 2, 3] = Some forecast \<and>
       length forecast = nat 2 \<and>
       (\<forall>k<nat 2. forecast ! k = window_mean (nat 2) ([1, 2, 3] @ take k forecast))) \<and>
   moving_average 2 2 [1, 2, 3] = Some [5 / 2, 11 / 4]"
proof -
  have h: "[1, 2, 3 :: rat] \<noteq> [] \<and> (2::int) \<le> 2 \<and> (1::int) \<le> 2"
    by simp
  show ?thesis
    using h moving_average_feeds_back [of "[1, 2, 3]" 2 2] by blast
qed

lemma moving_average_tenth:
  "moving_average 3 1
     [3602879701896397 / 36028797018963968, 3602879701896397 / 36028797018963968,
      3602879701896397 / 36028797018963968] =
   Some [7205759403792795 / 72057594037927936]"
  by code_simp

lemma moving_average_large:
  "moving_average 2 1 [9007199254740993, 9007199254740993] = Some [9007199254740992]"
  by code_simp

lemma tenth_is_binary64: "rnd64 (1 / 10) = 3602879701896397 / 36028797018963968"
  by code_simp

text \<open>
  Claim C10, as stated, fails.  The binary64 number nearest to one tenth is
  \<open>3602879701896397 / 2^55\<close>.  Over the history of three such values, with window 3, the
  first forecast is \<open>7205759403792795 / 2^56\<close>, above the maximum of the history: the sum
  of the three values is rounded up, and so is its third.  Over the history of two values
  \<open>2^53 + 1\<close>, with window 2, the forecast is \<open>2^53\<close>, below the minimum: these integers are
  not binary64 numbers.
\<close>

theorem moving_average_leaves_history_range:
  "moving_average 3 1
     [3602879701896397 / 36028797018963968, 3602879701896397 / 36028797018963968,
      3602879701896397 / 36028797018963968] =
   Some [7205759403792795 / 72057594037927936] \<and>
   Max (set [3602879701896397 / 36028797018963968, 3602879701896397 / 36028797018963968,
      3602879701896397 / 36028797018963968 :: rat]) < 7205759403792795 / 72057594037927936 \<and>
   moving_average 2 1 [9007199254740993, 9007199254740993] = Some [9007199254740992] \<and>
   (9007199254740992 :: rat) < Min (set [9007199254740993, 9007199254740993])"
  by (simp add: moving_average_tenth moving_average_large)

lemma window_mean_bounds:
  assumes ex: "exact_upto L H N" and w: "0 < w" "w \<le> N" and ne: "xs \<noteq> []"
    and el: "\<forall>x\<in>set xs. of_int L \<le> x \<and> x \<le> of_int H"
  shows "of_int L \<le> window_mean w xs \<and> window_mean w xs \<le> of_int H"
proof (cases "w \<le> length xs")
  case True
  then have len: "length (last_n w xs) = w"
    by (simp add: length_last_n)
  then have ne': "last_n w xs \<noteq> []"
    using w(1) by auto
  have len': "length (last_n w xs) \<le> N"
    using len w(2) by simp
  have "\<forall>x\<in>set (last_n w xs). of_int L \<le> x \<and> x \<le> of_int H"
    using el set_last_n [of w xs] by blast
  from float_mean_bounds [OF ex ne' len' this] show ?thesis
    using True by (simp add: window_mean_def)
next
  case False
  then have "length xs \<le> N"
    using w(2) by simp
  from float_mean_bounds [OF ex ne this el] show ?thesis
    using False by (simp add: window_mean_def)
qed

lemma ma_loop_bounds:
  assumes "0 < window" and ex: "exact_upto L H (nat window)"
  shows "data \<noteq> [] \<Longrightarrow> \<forall>x\<in>set data. of_int L \<le> x \<and> x \<le> of_int H \<Longrightarrow>
     \<forall>x\<in>set forecast. of_int L \<le> x \<and> x \<le> of_int H \<Longrightarrow>
     ma_loop window n data forecast = Some out \<Longrightarrow> \<forall>x\<in>set out. of_int L \<le> x \<and> x \<le> of_int H"
proof (induction n arbitrary: data forecast)
  case 0
  then show ?case by simp
next
  case (Suc n)
  define ma where "ma = window_mean (nat window) data"
  have step: "(if window \<le> int (length data) then np_mean (tail_slice window data) else np_mean data) = Some ma"
    unfolding ma_def using assms(1) Suc.prems(1) by (rule ma_step)
  have b: "of_int L \<le> ma \<and> ma \<le> of_int H"
    unfolding ma_def using ex _ _ Suc.prems(1,2) by (rule window_mean_bounds) (use assms(1) in simp_all)
  have next_loop: "ma_loop window n (data @ [ma]) (forecast @ [ma]) = Some out"
    using Suc.prems(4) by (simp only: ma_loop.simps step option.case)
  show ?case
  proof (rule Suc.IH [OF _ _ _ next_loop])
    show "data @ [ma] \<noteq> []" by simp
    show "\<forall>x\<in>set (data @ [ma]). of_int L \<le> x \<and> x \<le> of_int H"
      using Suc.prems(2) b by simp
    show "\<forall>x\<in>set (forecast @ [ma]). of_int L \<le> x \<and> x \<le> of_int H"
      using Suc.prems(3) b by simp
  qed
qed

text \<open>
  Claim C10, amended.  For a non-empty history of integers \<open>v\<close> with
  \<open>window * |v| \<le> 2^53\<close>, a window of at least 2 and a horizon of at least 1 the
  moving-average branch returns \<open>horizon\<close> values, each between the minimum and the maximum
  of the history.
\<close>

theorem moving_average_within_integer_history_range:
  "ys \<noteq> [] \<and> 2 \<le> window \<and> 1 \<le> horizon \<and> (\<forall>v\<in>set ys. window * \<bar>v\<bar> \<le> 2 ^ 53) \<longrightarrow>
     (\<exists>forecast. moving_average window horizon (map of_int ys) = Some forecast \<and>
         length forecast = nat horizon \<and>
         (\<forall>v\<in>set forecast. of_int (Min (set ys)) \<le> v \<and> v \<le> of_int (Max (set ys))))"
proof
  assume a: "ys \<noteq> [] \<and> 2 \<le> window \<and> 1 \<le> horizon \<and> (\<forall>v\<in>set ys. window * \<bar>v\<bar> \<le> 2 ^ 53)"
  then have w: "0 < window" and ys: "ys \<noteq> []" and small: "\<forall>v\<in>set ys. window * \<bar>v\<bar> \<le> 2 ^ 53"
    by simp_all
  let ?y = "map of_int ys :: rat list"
  let ?L = "Min (set ys)" and ?H = "Max (set ys)"
  have y: "?y \<noteq> []"
    using ys by simp
  have "?L \<in> set ys" "?H \<in> set ys"
    using ys by simp_all
  then have ex: "exact_upto ?L ?H (nat window)"
    using small w by (simp add: exact_upto_def)
  from ma_loop_spec [OF w y, of "nat horizon" "[]"]
  obtain forecast where f: "moving_average window horizon ?y = Some forecast"
      "length forecast = nat horizon"
    by (auto simp: moving_average_def)
  have range: "\<forall>x\<in>set ?y. of_int ?L \<le> x \<and> x \<le> of_int ?H"
    using ys by auto
  have "\<forall>v\<in>set forecast. of_int ?L \<le> v \<and> v \<le> of_int ?H"
    using ma_loop_bounds [OF w ex y range, of "[]" "nat horizon" forecast] f(1)
    by (simp add: moving_average_def)
  with f show "\<exists>forecast. moving_average window horizon ?y = Some forecast \<and>
         length forecast = nat horizon \<and>
         (\<forall>v\<in>set forecast. of_int ?L \<le> v \<and> v \<le> of_int ?H)"
    by blast
qed

theorem moving_average_within_integer_history_range_witness:
  "([1, 2 :: int] \<noteq> [] \<and> (2::int) \<le> 3 \<and> (1::int) \<le> 4 \<and>
     (3::int) * \<bar>1\<bar> \<le> 2 ^ 53 \<and> (3::int) * \<bar>2\<bar> \<le> 2 ^ 53) \<and>
   (\<exists>forecast. moving_average 3 4 (map of_int [1, 2]) = Some forecast \<and>
       length forecast = nat 4 \<and>
       (\<forall>v\<in>set forecast. of_int (Min (set [1, 2])) \<le> v \<and> v \<le> of_int (Max (set [1, 2]))))"
proof -
  have h: "[1, 2 :: int] \<noteq> [] \<and> (2::int) \<le> 3 \<and> (1::int) \<le> 4 \<and>
      (\<forall>v\<in>set [1, 2 :: int]. 3 * \<bar>v\<bar> \<le> 2 ^ 53)"
    by simp
  have h': "(3::int) * \<bar>1\<bar> \<le> 2 ^ 53 \<and> (3::int) * \<bar>2\<bar> \<le> 2 ^ 53"
    by simp
  show ?thesis
    using h h' moving_average_within_integer_history_range [of "[1, 2]" 3 4] by blast
qed

end
